theory Spec2Isabelle
  imports Complex_Main "HOL-Library.Log_Nat"
begin

section \<open>Values shared by the generator modules\<close>

text \<open>
  The generator raises \<^verbatim>\<open>ValueError\<close> (the spec's InvalidArgument) from its own checks
  and from numpy's argument checks; numpy indexing raises \<^verbatim>\<open>IndexError\<close>; Python raises
  \<^verbatim>\<open>OverflowError\<close> when an integer is too large to be converted to a float, and when an
  infinite float is converted to an integer.
\<close>

datatype error = ValueError | IndexError | OverflowError

text \<open>
  A float of the distribution engine, and the quotient \<^verbatim>\<open>verify_pattern\<close> returns, is
  modelled as an exact real or the not-a-number value: the elementary functions of
  numpy and scipy are not part of the repository, and their rounding, overflow and
  underflow are not modelled.
\<close>

datatype pyfloat = Fl real | NaN

subsection \<open>Float64 arithmetic\<close>

text \<open>
  The products and quotients of \<^verbatim>\<open>inject_pattern\<close> and of the transaction length
  are float64 operations: the exact result rounded to the nearest float64, ties to the
  even mantissa. A float is a real here; \<open>fl64\<close> is the rounding.

  \<open>round_half_even\<close> rounds a real to the nearest integer, ties to the even one.
\<close>

definition round_half_even :: "real \<Rightarrow> int" where
  "round_half_even x =
     (if x - of_int \<lfloor>x\<rfloor> < 1 / 2 then \<lfloor>x\<rfloor>
      else if 1 / 2 < x - of_int \<lfloor>x\<rfloor> then \<lfloor>x\<rfloor> + 1
      else if even \<lfloor>x\<rfloor> then \<lfloor>x\<rfloor> else \<lfloor>x\<rfloor> + 1)"

text \<open>
  The binary exponent of a positive real \<open>x\<close>, the \<open>e\<close> with
  \<open>2^e \<le> x < 2^(e+1)\<close>, computed from the bit length of an integer.
\<close>

definition float_exponent :: "real \<Rightarrow> int" where
  "float_exponent x = (if 1 \<le> x then bitlen \<lfloor>x\<rfloor> - 1 else - bitlen (\<lceil>1 / x\<rceil> - 1))"

text \<open>
  The spacing of the float64 values around \<open>x\<close>: 52 bits below the exponent, and
  \<open>2^-1074\<close> in the subnormal range (exponents below \<open>-1022\<close>).
\<close>

definition float_quantum :: "real \<Rightarrow> real" where
  "float_quantum x = 2 powi (max (float_exponent \<bar>x\<bar>) (- 1022) - 52)"

definition fl64 :: "real \<Rightarrow> real" where
  "fl64 x = (if x = 0 then 0
             else of_int (round_half_even (x / float_quantum x)) * float_quantum x)"

text \<open>
  A real of magnitude \<open>2^1024 - 2^970\<close> or more rounds beyond the largest float64:
  an arithmetic result becomes infinite, the conversion of a Python integer raises
  \<^verbatim>\<open>OverflowError\<close>.
\<close>

definition float_overflows :: "real \<Rightarrow> bool" where
  "float_overflows x \<longleftrightarrow> 2 ^ 1024 - 2 ^ 970 \<le> \<bar>x\<bar>"

text \<open>
  \<^verbatim>\<open>int(x)\<close> on a float truncates toward zero.
\<close>

definition py_int :: "real \<Rightarrow> int" where
  "py_int x = (if 0 \<le> x then \<lfloor>x\<rfloor> else \<lceil>x\<rceil>)"

subsection \<open>The transaction matrix\<close>

text \<open>
  A two-dimensional numpy array of integers: its shape and its cells. Only the cells
  \<open>cell a i j\<close> with \<open>i < nrows a\<close> and \<open>j < ncols a\<close> belong to the array.
\<close>

record ndarray =
  nrows :: nat
  ncols :: nat
  cell :: "nat \<Rightarrow> nat \<Rightarrow> int"

definition zeros :: "nat \<Rightarrow> nat \<Rightarrow> ndarray" where
  "zeros r c = \<lparr>nrows = r, ncols = c, cell = (\<lambda>i j. 0)\<rparr>"

text \<open>
  numpy resolves an index \<open>i\<close> on an axis of length \<open>n\<close>: a negative index counts
  from the end, anything outside \<open>[-n, n)\<close> raises \<^verbatim>\<open>IndexError\<close>.
\<close>

definition np_index :: "nat \<Rightarrow> int \<Rightarrow> nat option" where
  "np_index n i =
     (if 0 \<le> i \<and> i < int n then Some (nat i)
      else if - int n \<le> i \<and> i < 0 then Some (nat (i + int n))
      else None)"

text \<open>\<^verbatim>\<open>a[i, j] = v\<close>\<close>

definition setitem :: "ndarray \<Rightarrow> int \<Rightarrow> int \<Rightarrow> int \<Rightarrow> error + ndarray" where
  "setitem a i j v =
     (case np_index (nrows a) i of
        None \<Rightarrow> Inl IndexError
      | Some r \<Rightarrow>
          (case np_index (ncols a) j of
             None \<Rightarrow> Inl IndexError
           | Some c \<Rightarrow> Inr (a\<lparr>cell := (cell a)(r := (cell a r)(c := v))\<rparr>)))"

text \<open>The data model's invariant: every cell of the array is 0 or 1.\<close>

definition binary :: "ndarray \<Rightarrow> bool" where
  "binary a \<longleftrightarrow> (\<forall>i<nrows a. \<forall>j<ncols a. cell a i j = 0 \<or> cell a i j = 1)"

subsection \<open>The shared random stream\<close>

text \<open>
  The module-level stream \<^verbatim>\<open>np.random\<close> is a state of some type \<open>'st\<close> together
  with the draws numpy makes from it. The Mersenne Twister itself is not part of the
  repository, so the draws are parameters: each takes the state and returns the value
  drawn and the next state. \<open>rs_seed\<close> is the state that \<^verbatim>\<open>np.random.seed\<close> installs.
\<close>

record 'st np_random =
  rs_seed :: "int \<Rightarrow> 'st"
  rs_poisson :: "real \<Rightarrow> 'st \<Rightarrow> nat \<times> 'st"
  rs_choice :: "nat \<Rightarrow> nat \<Rightarrow> 'st \<Rightarrow> nat list \<times> 'st"
  rs_choice_p :: "nat \<Rightarrow> nat \<Rightarrow> real list \<Rightarrow> 'st \<Rightarrow> nat list \<times> 'st"
  rs_random :: "'st \<Rightarrow> real \<times> 'st"

text \<open>
  What numpy documents about the draws: \<^verbatim>\<open>choice(a, size=k, replace=False)\<close> returns
  \<open>k\<close> distinct indices below \<open>a\<close>; with weights \<open>p\<close> it returns only indices of
  positive weight; \<^verbatim>\<open>random()\<close> returns a float in the half-open interval \<open>[0, 1)\<close>.
\<close>

definition np_random_ok :: "'st np_random \<Rightarrow> bool" where
  "np_random_ok rs \<longleftrightarrow>
     (\<forall>a k st. k \<le> a \<longrightarrow>
        length (fst (rs_choice rs a k st)) = k \<and> distinct (fst (rs_choice rs a k st)) \<and>
        (\<forall>x\<in>set (fst (rs_choice rs a k st)). x < a)) \<and>
     (\<forall>a k p st. length p = a \<and> k \<le> length (filter (\<lambda>x. 0 < x) p) \<longrightarrow>
        length (fst (rs_choice_p rs a k p st)) = k \<and> distinct (fst (rs_choice_p rs a k p st)) \<and>
        (\<forall>x\<in>set (fst (rs_choice_p rs a k p st)). x < a \<and> 0 < p ! x)) \<and>
     (\<forall>st. 0 \<le> fst (rs_random rs st) \<and> fst (rs_random rs st) < 1)"

text \<open>\<^verbatim>\<open>np.random.seed(s)\<close>: numpy accepts a seed between 0 and \<open>2^32 - 1\<close>.\<close>

definition np_seed :: "'st np_random \<Rightarrow> int \<Rightarrow> error + 'st" where
  "np_seed rs s = (if 0 \<le> s \<and> s < 2 ^ 32 then Inr (rs_seed rs s) else Inl ValueError)"

text \<open>
  \<^verbatim>\<open>np.random.choice(a, size=k, replace=False)\<close> for an integer population \<open>a\<close>, with
  numpy's argument checks; a rejected call leaves the stream as it was.
\<close>

definition np_choice :: "'st np_random \<Rightarrow> nat \<Rightarrow> int \<Rightarrow> 'st \<Rightarrow> (error + nat list) \<times> 'st" where
  "np_choice rs a k st =
     (if a = 0 \<and> k \<noteq> 0 then (Inl ValueError, st)
      else if int a < k then (Inl ValueError, st)
      else if k < 0 then (Inl ValueError, st)
      else (case rs_choice rs a (nat k) st of (xs, st') \<Rightarrow> (Inr xs, st')))"

section \<open>PatternInjector (injector.py)\<close>

record pattern_injector =
  num_transactions :: nat
  num_items :: nat

text \<open>
  The number of transactions to inject into (\<^verbatim>\<open>num_injections\<close>, lines 70 to 77), in
  float64: the literal \<^verbatim>\<open>0.7\<close> is the float nearest to 7/10, every product, difference
  and quotient is rounded, and \<^verbatim>\<open>self.num_transactions\<close> is converted to a float before it
  is multiplied. The arguments are floats that have passed the checks of lines 62 to 66,
  so the divisor is at least 0.3 and nothing here is infinite or not a number.
\<close>

definition num_injections :: "pattern_injector \<Rightarrow> real \<Rightarrow> real \<Rightarrow> int" where
  "num_injections self target_support noise_ratio =
     (if noise_ratio > 0 then
        (let compensation_factor = fl64 (1 / fl64 (1 - fl64 (noise_ratio * fl64 (7 / 10))));
             adjusted_support = fl64 (target_support * compensation_factor)
         in py_int (fl64 (fl64 (real (num_transactions self)) * min adjusted_support 1)))
      else py_int (fl64 (fl64 (real (num_transactions self)) * target_support)))"

text \<open>
  The inner loop (lines 91 to 94) over the pattern's items for one selected transaction:
  one uniform draw per item, the cell is set when the draw exceeds \<open>noise_ratio\<close>.
  The array is mutated in place, so an exception leaves the cells already written; the
  result is the exception raised (if any), the array and the stream.
\<close>

fun inject_items ::
  "'st np_random \<Rightarrow> real \<Rightarrow> nat \<Rightarrow> int list \<Rightarrow> ndarray \<Rightarrow> 'st \<Rightarrow> error option \<times> ndarray \<times> 'st" where
  "inject_items rs noise_ratio trans_idx [] data st = (None, data, st)"
| "inject_items rs noise_ratio trans_idx (item # rest) data st =
     (case rs_random rs st of
        (u, st') \<Rightarrow>
          if u > noise_ratio then
            (case setitem data (int trans_idx) item 1 of
               Inl e \<Rightarrow> (Some e, data, st')
             | Inr data' \<Rightarrow> inject_items rs noise_ratio trans_idx rest data' st')
          else inject_items rs noise_ratio trans_idx rest data st')"

text \<open>The outer loop (line 90) over the selected transactions.\<close>

fun inject_rows ::
  "'st np_random \<Rightarrow> real \<Rightarrow> nat list \<Rightarrow> int list \<Rightarrow> ndarray \<Rightarrow> 'st \<Rightarrow> error option \<times> ndarray \<times> 'st" where
  "inject_rows rs noise_ratio [] pattern_items data st = (None, data, st)"
| "inject_rows rs noise_ratio (trans_idx # rest) pattern_items data st =
     (case inject_items rs noise_ratio trans_idx pattern_items data st of
        (Some e, data', st') \<Rightarrow> (Some e, data', st')
      | (None, data', st') \<Rightarrow> inject_rows rs noise_ratio rest pattern_items data' st')"

text \<open>
  \<^verbatim>\<open>inject_pattern\<close>: the four checks, the number of transactions (whose product raises
  \<^verbatim>\<open>OverflowError\<close> when \<^verbatim>\<open>self.num_transactions\<close> does not fit a float), the early return,
  the sample of transactions and the two loops.
\<close>

definition inject_pattern ::
  "pattern_injector \<Rightarrow> 'st np_random \<Rightarrow> ndarray \<Rightarrow> int list \<Rightarrow> real \<Rightarrow> real \<Rightarrow> 'st \<Rightarrow>
     error option \<times> ndarray \<times> 'st" where
  "inject_pattern self rs data pattern_items target_support noise_ratio st =
     (if pattern_items = [] then (Some ValueError, data, st)
      else if \<exists>item\<in>set pattern_items. item < 0 \<or> item \<ge> int (num_items self)
        then (Some ValueError, data, st)
      else if \<not> (0 < target_support \<and> target_support \<le> 1) then (Some ValueError, data, st)
      else if \<not> (0 \<le> noise_ratio \<and> noise_ratio < 1) then (Some ValueError, data, st)
      else if float_overflows (real (num_transactions self)) then (Some OverflowError, data, st)
      else if num_injections self target_support noise_ratio = 0 then (None, data, st)
      else
        (case np_choice rs (num_transactions self)
                (num_injections self target_support noise_ratio) st of
           (Inl e, st') \<Rightarrow> (Some e, data, st')
         | (Inr transaction_indices, st') \<Rightarrow>
             inject_rows rs noise_ratio transaction_indices pattern_items data st'))"

text \<open>
  A pattern dictionary of the configuration; \<^verbatim>\<open>noise_ratio\<close> is optional and read with
  \<^verbatim>\<open>pattern.get("noise_ratio", 0.0)\<close>.
\<close>

record pattern_spec =
  pattern_id :: string
  items :: "int list"
  target_support :: real
  noise_ratio :: "real option"

fun inject_multiple_patterns ::
  "pattern_injector \<Rightarrow> 'st np_random \<Rightarrow> ndarray \<Rightarrow> pattern_spec list \<Rightarrow> 'st \<Rightarrow>
     error option \<times> ndarray \<times> 'st" where
  "inject_multiple_patterns self rs data [] st = (None, data, st)"
| "inject_multiple_patterns self rs data (pattern # rest) st =
     (case inject_pattern self rs data (items pattern) (target_support pattern)
             (case noise_ratio pattern of None \<Rightarrow> 0 | Some noise \<Rightarrow> noise) st of
        (Some e, data', st') \<Rightarrow> (Some e, data', st')
      | (None, data', st') \<Rightarrow> inject_multiple_patterns self rs data' rest st')"

text \<open>
  \<^verbatim>\<open>verify_pattern\<close>: the loop of lines 146 and 147 narrows the boolean vector
  \<^verbatim>\<open>contains_pattern\<close> one item at a time; \<^verbatim>\<open>data[:, item]\<close> raises \<^verbatim>\<open>IndexError\<close>
  for a column outside the array.
\<close>

fun contains_pattern :: "ndarray \<Rightarrow> int list \<Rightarrow> bool list \<Rightarrow> error + bool list" where
  "contains_pattern data [] acc = Inr acc"
| "contains_pattern data (item # rest) acc =
     (case np_index (ncols data) item of
        None \<Rightarrow> Inl IndexError
      | Some c \<Rightarrow>
          contains_pattern data rest
            (map2 (\<and>) acc (map (\<lambda>i. cell data i c = 1) [0..<nrows data])))"

text \<open>
  numpy's true division of an integer count by the row count: \<open>0 / 0\<close> is \<^verbatim>\<open>nan\<close>
  (with a warning, not an exception). A nonzero count over zero rows cannot occur.
\<close>

definition np_true_divide :: "nat \<Rightarrow> nat \<Rightarrow> pyfloat" where
  "np_true_divide c n = (if n = 0 then NaN else Fl (real c / real n))"

definition verify_pattern :: "ndarray \<Rightarrow> int list \<Rightarrow> error + pyfloat" where
  "verify_pattern data pattern_items =
     (if pattern_items = [] then Inr (Fl 0)
      else
        (case contains_pattern data pattern_items (replicate (nrows data) True) of
           Inl e \<Rightarrow> Inl e
         | Inr v \<Rightarrow> Inr (np_true_divide (length (filter (\<lambda>b. b) v)) (nrows data))))"

section \<open>DistributionEngine (distributions.py)\<close>

subsection \<open>Array arithmetic on floats\<close>

text \<open>
  Addition, division and \<^verbatim>\<open>np.maximum\<close> propagate not-a-number. Division of zero by
  zero is \<^verbatim>\<open>nan\<close> in numpy. A nonzero dividend over zero (numpy: an infinity) has no
  value in this model and is mapped to \<open>NaN\<close> as well; in the functions below every
  divisor is the sum of its non-negative dividends, so it is zero only when all of them are.
\<close>

fun fl_add :: "pyfloat \<Rightarrow> pyfloat \<Rightarrow> pyfloat" where
  "fl_add (Fl a) (Fl b) = Fl (a + b)"
| "fl_add _ _ = NaN"

fun fl_div :: "pyfloat \<Rightarrow> pyfloat \<Rightarrow> pyfloat" where
  "fl_div (Fl a) (Fl b) = (if b = 0 then NaN else Fl (a / b))"
| "fl_div _ _ = NaN"

fun np_maximum :: "pyfloat \<Rightarrow> pyfloat \<Rightarrow> pyfloat" where
  "np_maximum (Fl a) (Fl b) = Fl (max a b)"
| "np_maximum _ _ = NaN"

text \<open>\<^verbatim>\<open>probs.sum()\<close>\<close>

definition np_sum :: "pyfloat list \<Rightarrow> pyfloat" where
  "np_sum probs = foldr fl_add probs (Fl 0)"

text \<open>\<^verbatim>\<open>probs / probs.sum()\<close>\<close>

definition normalize :: "pyfloat list \<Rightarrow> pyfloat list" where
  "normalize probs = map (\<lambda>p. fl_div p (np_sum probs)) probs"

text \<open>
  \<^verbatim>\<open>np.linspace(start, stop, num)\<close>: \<open>num\<close> evenly spaced points with both ends
  included; a single point is \<open>start\<close>.
\<close>

definition linspace :: "real \<Rightarrow> real \<Rightarrow> nat \<Rightarrow> real list" where
  "linspace start stop num =
     (if num = 1 then [start]
      else map (\<lambda>i. start + real i * ((stop - start) / real (num - 1))) [0..<num])"

text \<open>
  The densities of \<^verbatim>\<open>scipy.stats\<close>, from their documentation: a scale that is not
  positive gives \<^verbatim>\<open>nan\<close>; the exponential density is zero left of its origin.
\<close>

definition norm_pdf :: "real \<Rightarrow> real \<Rightarrow> real \<Rightarrow> pyfloat" where
  "norm_pdf x loc scale =
     (if 0 < scale
      then Fl (exp (- (((x - loc) / scale) ^ 2) / 2) / sqrt (2 * pi) / scale)
      else NaN)"

definition expon_pdf :: "real \<Rightarrow> real \<Rightarrow> pyfloat" where
  "expon_pdf x scale =
     (if 0 < scale
      then (if 0 \<le> x / scale then Fl (exp (- (x / scale)) / scale) else Fl 0)
      else NaN)"

subsection \<open>The four distributions\<close>

text \<open>
  The parameter dictionary maps a name to a float; \<^verbatim>\<open>params.get(key, default)\<close>.
\<close>

definition param_get :: "(string \<rightharpoonup> real) \<Rightarrow> string \<Rightarrow> real \<Rightarrow> real" where
  "param_get params key dflt = (case params key of None \<Rightarrow> dflt | Some v \<Rightarrow> v)"

definition random_distribution :: "nat \<Rightarrow> pyfloat list" where
  "random_distribution n = normalize (replicate n (Fl 1))"

definition zipf_distribution :: "nat \<Rightarrow> (string \<rightharpoonup> real) \<Rightarrow> pyfloat list" where
  "zipf_distribution n params =
     (let alpha = param_get params ''alpha'' 1.1;
          ranks = [1..<n + 1];
          probs = map (\<lambda>r. fl_div (Fl 1) (Fl (real r powr alpha))) ranks
      in normalize probs)"

definition normal_distribution :: "nat \<Rightarrow> (string \<rightharpoonup> real) \<Rightarrow> pyfloat list" where
  "normal_distribution n params =
     (let mean = param_get params ''mean'' 0.5;
          std = param_get params ''std'' 0.2;
          positions = linspace 0 1 n;
          probs = map (\<lambda>x. norm_pdf x mean std) positions;
          probs = map (\<lambda>p. np_maximum p (Fl 0)) probs
      in normalize probs)"

definition exponential_distribution :: "nat \<Rightarrow> (string \<rightharpoonup> real) \<Rightarrow> pyfloat list" where
  "exponential_distribution n params =
     (let scale = param_get params ''scale'' 1.0;
          x = linspace 0 5 n;
          probs = map (\<lambda>x. expon_pdf x scale) x
      in normalize probs)"

text \<open>
  \<^verbatim>\<open>generate_item_frequencies\<close>; \<^verbatim>\<open>params or {}\<close> replaces a missing dictionary by
  the empty one. The function takes no random stream and returns none.
\<close>

definition generate_item_frequencies ::
  "nat \<Rightarrow> string \<Rightarrow> (string \<rightharpoonup> real) option \<Rightarrow> error + pyfloat list" where
  "generate_item_frequencies n method params =
     (let params = (case params of None \<Rightarrow> Map.empty | Some p \<Rightarrow> p) in
      if method = ''random'' then Inr (random_distribution n)
      else if method = ''zipf'' then Inr (zipf_distribution n params)
      else if method = ''normal'' then Inr (normal_distribution n params)
      else if method = ''exponential'' then Inr (exponential_distribution n params)
      else Inl ValueError)"

section \<open>DataGenerator (core.py)\<close>

subsection \<open>The weighted draws of numpy\<close>

text \<open>
  \<^verbatim>\<open>np.random.poisson(lam)\<close> rejects a negative rate and one above numpy's
  \<^verbatim>\<open>POISSON_LAM_MAX\<close>.
\<close>

definition poisson_lam_max :: real where
  "poisson_lam_max = 9223372006484770816"

definition np_poisson :: "'st np_random \<Rightarrow> real \<Rightarrow> 'st \<Rightarrow> (error + nat) \<times> 'st" where
  "np_poisson rs lam st =
     (if lam < 0 \<or> poisson_lam_max < lam then (Inl ValueError, st)
      else (case rs_poisson rs lam st of (k, st') \<Rightarrow> (Inr k, st')))"

text \<open>
  \<^verbatim>\<open>np.random.choice(a, size=k, replace=False, p=p)\<close> with numpy's argument checks: the
  weights must be as many as the population, free of \<^verbatim>\<open>nan\<close>, non-negative and sum to 1
  within the square root of the float64 epsilon, \<open>2^-26\<close>; the sample must not exceed the
  population, nor the number of positive weights
  (\<^verbatim>\<open>"Fewer non-zero entries in p than size"\<close>). Each failed check raises \<^verbatim>\<open>ValueError\<close>.
\<close>

definition fl_val :: "pyfloat \<Rightarrow> real" where
  "fl_val x = (case x of Fl r \<Rightarrow> r | NaN \<Rightarrow> 0)"

definition np_choice_p ::
  "'st np_random \<Rightarrow> nat \<Rightarrow> int \<Rightarrow> pyfloat list \<Rightarrow> 'st \<Rightarrow> (error + nat list) \<times> 'st" where
  "np_choice_p rs a k p st =
     (if a = 0 \<and> k \<noteq> 0 then (Inl ValueError, st)
      else if length p \<noteq> a then (Inl ValueError, st)
      else if NaN \<in> set p then (Inl ValueError, st)
      else if \<exists>x\<in>set p. fl_val x < 0 then (Inl ValueError, st)
      else if \<bar>sum_list (map fl_val p) - 1\<bar> > 1 / 2 ^ 26 then (Inl ValueError, st)
      else if int a < k then (Inl ValueError, st)
      else if k < 0 then (Inl ValueError, st)
      else if int (length (filter (\<lambda>x. 0 < fl_val x) p)) < k then (Inl ValueError, st)
      else (case rs_choice_p rs a (nat k) (map fl_val p) st of (xs, st') \<Rightarrow> (Inr xs, st')))"

text \<open>\<^verbatim>\<open>data[i, selected_items] = v\<close> for an array of column indices.\<close>

fun setitems :: "ndarray \<Rightarrow> int \<Rightarrow> nat list \<Rightarrow> int \<Rightarrow> error + ndarray" where
  "setitems a i [] v = Inr a"
| "setitems a i (j # js) v =
     (case setitem a i (int j) v of
        Inl e \<Rightarrow> Inl e
      | Inr a' \<Rightarrow> setitems a' i js v)"

subsection \<open>The generator\<close>

text \<open>
  The fields \<^verbatim>\<open>__init__\<close> fills from the configuration. \<^verbatim>\<open>self.num_transactions\<close> and
  \<^verbatim>\<open>self.num_items\<close> are the numbers the constructor also hands to \<^verbatim>\<open>self.injector\<close>, so
  they are read from there. \<open>data\<close> is \<^verbatim>\<open>None\<close> until a generation has succeeded.
\<close>

record data_generator =
  injector :: pattern_injector
  density :: real
  avg_transaction_len :: "int option"
  dist_method :: string
  dist_params :: "(string \<rightharpoonup> real) option"
  patterns :: "pattern_spec list"
  data :: "ndarray option"

text \<open>
  The length of one transaction (lines 96 to 102). \<^verbatim>\<open>if self.avg_transaction_len:\<close> is
  false for \<^verbatim>\<open>None\<close> and for 0. The density is a float, so the product of line 102 is a
  float64 product of the converted \<^verbatim>\<open>self.num_items\<close>; \<^verbatim>\<open>int\<close> raises \<^verbatim>\<open>OverflowError\<close> on
  an infinite product, as the conversion does on an integer that fits no float.
\<close>

definition transaction_length ::
  "data_generator \<Rightarrow> 'st np_random \<Rightarrow> 'st \<Rightarrow> (error + int) \<times> 'st" where
  "transaction_length self rs st =
     (if avg_transaction_len self \<noteq> None \<and> avg_transaction_len self \<noteq> Some 0 then
        (case np_poisson rs (real_of_int (the (avg_transaction_len self))) st of
           (Inl e, st') \<Rightarrow> (Inl e, st')
         | (Inr trans_len, st') \<Rightarrow>
             (Inr (max 1 (min (int trans_len) (int (num_items (injector self))))), st'))
      else if float_overflows (real (num_items (injector self))) \<or>
              float_overflows (fl64 (real (num_items (injector self))) * density self)
        then (Inl OverflowError, st)
      else
        (Inr (max 1 (py_int (fl64 (fl64 (real (num_items (injector self))) * density self)))),
         st))"

text \<open>
  The loop of \<^verbatim>\<open>_generate_transactions\<close> over the rows that remain; an exception
  abandons the local array.
\<close>

fun generate_rows ::
  "data_generator \<Rightarrow> 'st np_random \<Rightarrow> pyfloat list \<Rightarrow> nat list \<Rightarrow> ndarray \<Rightarrow> 'st \<Rightarrow>
     (error + ndarray) \<times> 'st" where
  "generate_rows self rs item_probs [] a st = (Inr a, st)"
| "generate_rows self rs item_probs (i # rest) a st =
     (case transaction_length self rs st of
        (Inl e, st1) \<Rightarrow> (Inl e, st1)
      | (Inr trans_len, st1) \<Rightarrow>
          (case np_choice_p rs (num_items (injector self)) trans_len item_probs st1 of
             (Inl e, st2) \<Rightarrow> (Inl e, st2)
           | (Inr selected_items, st2) \<Rightarrow>
               (case setitems a (int i) selected_items 1 of
                  Inl e \<Rightarrow> (Inl e, st2)
                | Inr a' \<Rightarrow> generate_rows self rs item_probs rest a' st2)))"

definition generate_transactions ::
  "data_generator \<Rightarrow> 'st np_random \<Rightarrow> pyfloat list \<Rightarrow> 'st \<Rightarrow> (error + ndarray) \<times> 'st" where
  "generate_transactions self rs item_probs st =
     generate_rows self rs item_probs [0..<num_transactions (injector self)]
       (zeros (num_transactions (injector self)) (num_items (injector self))) st"

text \<open>
  \<^verbatim>\<open>generate(seed)\<close>: the value returned or the exception raised, the generator with its
  stored array, and the stream. The injector mutates the array that \<^verbatim>\<open>self.data\<close> already
  refers to, so a failed injection leaves the partly injected array stored.
\<close>

definition generate ::
  "data_generator \<Rightarrow> 'st np_random \<Rightarrow> int option \<Rightarrow> 'st \<Rightarrow>
     (error + ndarray) \<times> data_generator \<times> 'st" where
  "generate self rs seed st =
     (case (case seed of None \<Rightarrow> Inr st | Some s \<Rightarrow> np_seed rs s) of
        Inl e \<Rightarrow> (Inl e, self, st)
      | Inr st0 \<Rightarrow>
          (case generate_item_frequencies (num_items (injector self))
                  (dist_method self) (dist_params self) of
             Inl e \<Rightarrow> (Inl e, self, st0)
           | Inr item_probs \<Rightarrow>
               (case generate_transactions self rs item_probs st0 of
                  (Inl e, st1) \<Rightarrow> (Inl e, self, st1)
                | (Inr a, st1) \<Rightarrow>
                    if patterns self \<noteq> [] then
                      (case inject_multiple_patterns (injector self) rs a (patterns self) st1 of
                         (Some e, a', st2) \<Rightarrow> (Inl e, self\<lparr>data := Some a'\<rparr>, st2)
                       | (None, a', st2) \<Rightarrow> (Inr a', self\<lparr>data := Some a'\<rparr>, st2))
                    else (Inr a, self\<lparr>data := Some a\<rparr>, st1))))"

section \<open>Auxiliary notions for the proofs\<close>

text \<open>
  \<open>only_sets a b\<close>: \<open>b\<close> has the shape of \<open>a\<close>, and every cell of \<open>b\<close> is the cell
  of \<open>a\<close> or has been set to 1.
\<close>

definition only_sets :: "ndarray \<Rightarrow> ndarray \<Rightarrow> bool" where
  "only_sets a b \<longleftrightarrow>
     nrows b = nrows a \<and> ncols b = ncols a \<and>
     (\<forall>i j. cell b i j = cell a i j \<or> cell b i j = 1)"

text \<open>
  A concrete stream on which the theorems are instantiated: the state counts the draws,
  a sample is the first admissible indices, every uniform draw is one half.
\<close>

definition demo_stream :: "nat np_random" where
  "demo_stream =
     \<lparr>rs_seed = (\<lambda>s. nat s),
      rs_poisson = (\<lambda>lam st. (nat \<lfloor>lam\<rfloor>, Suc st)),
      rs_choice = (\<lambda>a k st. ([0..<k], Suc st)),
      rs_choice_p = (\<lambda>a k p st. (take k (filter (\<lambda>i. 0 < p ! i) [0..<a]), Suc st)),
      rs_random = (\<lambda>st. (1 / 2, Suc st))\<rparr>"

text \<open>The array as nested lists (\<^verbatim>\<open>ndarray.tolist()\<close>), to display results.\<close>

definition tolist :: "ndarray \<Rightarrow> int list list" where
  "tolist a = map (\<lambda>i. map (cell a i) [0..<ncols a]) [0..<nrows a]"

text \<open>A small configuration and a pattern on which the theorems are instantiated.\<close>

definition demo_pattern :: pattern_spec where
  "demo_pattern = \<lparr>pattern_id = ''p'', items = [1], target_support = 1 / 2, noise_ratio = None\<rparr>"

definition demo_generator :: data_generator where
  "demo_generator =
     \<lparr>injector = \<lparr>num_transactions = 2, num_items = 3\<rparr>,
      density = 1 / 2,
      avg_transaction_len = None,
      dist_method = ''random'',
      dist_params = None,
      patterns = [\<lparr>pattern_id = ''p'', items = [1], target_support = 1 / 2, noise_ratio = None\<rparr>],
      data = None\<rparr>"

text \<open>
  The stream after \<open>k\<close> calls of \<^verbatim>\<open>np.random.random()\<close> from the state \<open>st\<close>, and
  the value the call number \<open>k\<close> (counted from 0) returns.
\<close>

fun random_state :: "'st np_random \<Rightarrow> 'st \<Rightarrow> nat \<Rightarrow> 'st" where
  "random_state rs st 0 = st"
| "random_state rs st (Suc k) = random_state rs (snd (rs_random rs st)) k"

definition random_draw :: "'st np_random \<Rightarrow> 'st \<Rightarrow> nat \<Rightarrow> real" where
  "random_draw rs st k = fst (rs_random rs (random_state rs st k))"

text \<open>
  Of \<open>n\<close> selected transactions with \<open>m\<close> pattern items each, the positions in the
  sample of those whose \<open>m\<close> uniform draws all exceed the noise ratio: the inner loop
  makes the draws \<open>k * m, \<dots>, k * m + m - 1\<close> for the transaction at position \<open>k\<close>.
\<close>

definition kept_rows :: "'st np_random \<Rightarrow> 'st \<Rightarrow> real \<Rightarrow> nat \<Rightarrow> nat \<Rightarrow> nat set" where
  "kept_rows rs st noise n m = {k. k < n \<and> (\<forall>j<m. noise < random_draw rs st (k * m + j))}"

text \<open>The rows of an array that hold every item of a pattern.\<close>

definition full_rows :: "ndarray \<Rightarrow> int list \<Rightarrow> nat set" where
  "full_rows a its = {i. i < nrows a \<and> (\<forall>item\<in>set its. cell a i (nat item) = 1)}"

text \<open>
  The stream \<open>demo_stream\<close> with one change: the uniform draw made in state 1 (the
  first one after a sample has been drawn in state 0) is exactly 0.0.
\<close>

definition zero_draw_stream :: "nat np_random" where
  "zero_draw_stream =
     demo_stream\<lparr>rs_random := (\<lambda>st. (if st = 1 then 0 else 1 / 2, Suc st))\<rparr>"

text \<open>
  A configuration whose density asks for two items per transaction; it is run on the
  probability vector \<open>[1, 0]\<close>, which has one positive entry.
\<close>

definition pathological_generator :: data_generator where
  "pathological_generator =
     \<lparr>injector = \<lparr>num_transactions = 1, num_items = 2\<rparr>,
      density = 1,
      avg_transaction_len = None,
      dist_method = ''random'',
      dist_params = None,
      patterns = [],
      data = None\<rparr>"

section \<open>Float64 rounding\<close>

text \<open>
  The exponent computed from the bit length is the one that brackets \<open>x\<close>, so a
  rounding is evaluated by naming the exponent.
\<close>

lemma bitlen_eqI:
  assumes "0 \<le> e" and "2 ^ nat e \<le> n" and "n < 2 ^ nat (e + 1)"
  shows "bitlen n = e + 1"
proof (rule antisym)
  show "bitlen n \<le> e + 1" using assms by (simp add: bitlen_le_iff_power)
  have "nat (e + 1) - 1 = nat e" by simp
  then show "e + 1 \<le> bitlen n" using assms by (simp add: bitlen_ge_iff_power del: One_nat_def)
qed

lemma float_exponent_eqI:
  assumes "0 < x" and "2 powi e \<le> x" and "x < 2 powi (e + 1)"
  shows "float_exponent x = e"
proof (cases "1 \<le> x")
  case True
  have e: "0 \<le> e"
  proof (rule ccontr)
    assume "\<not> 0 \<le> e"
    then have "e + 1 \<le> 0" by simp
    then have "(2::real) powi (e + 1) \<le> 2 powi 0" by (intro power_int_increasing) simp_all
    with assms(3) True show False by simp
  qed
  have "(2::real) powi e = of_int (2 ^ nat e)" using e by (simp add: power_int_def)
  with assms(2) have lo: "2 ^ nat e \<le> \<lfloor>x\<rfloor>" by (simp add: le_floor_iff)
  have "(2::real) powi (e + 1) = of_int (2 ^ nat (e + 1))" using e by (simp add: power_int_def)
  with assms(3) have hi: "\<lfloor>x\<rfloor> < 2 ^ nat (e + 1)" by (simp add: floor_less_iff)
  from bitlen_eqI [OF e lo hi] True show ?thesis by (simp add: float_exponent_def)
next
  case False
  then have x1: "x < 1" by simp
  have e: "e < 0"
  proof (rule ccontr)
    assume "\<not> e < 0"
    then have "(2::real) powi 0 \<le> 2 powi e" by (intro power_int_increasing) simp_all
    with assms(2) x1 show False by simp
  qed
  define k where "k = - e - 1"
  have k: "0 \<le> k" and ek: "e = - (k + 1)" using e by (simp_all add: k_def)
  have p1: "(2::real) powi e = 1 / 2 ^ nat (k + 1)"
    using k by (simp add: ek power_int_def field_simps)
  have p2: "(2::real) powi (e + 1) = 1 / 2 ^ nat k"
    using k by (simp add: ek power_int_def field_simps)
  from assms(2) have "1 / 2 ^ nat (k + 1) \<le> x" unfolding p1 .
  with assms(1) have up: "1 / x \<le> 2 ^ nat (k + 1)"
    by (simp add: field_simps)
  from assms(3) have "x < 1 / 2 ^ nat k" unfolding p2 .
  with assms(1) have low: "2 ^ nat k < 1 / x"
    by (simp add: field_simps)
  have "\<lceil>1 / x\<rceil> \<le> 2 ^ nat (k + 1)"
    using up by (simp add: ceiling_le_iff)
  then have hi: "\<lceil>1 / x\<rceil> - 1 < 2 ^ nat (k + 1)" by simp
  have "(2::int) ^ nat k < \<lceil>1 / x\<rceil>"
    using low by (simp add: less_ceiling_iff)
  then have lo: "2 ^ nat k \<le> \<lceil>1 / x\<rceil> - 1" by simp
  from bitlen_eqI [OF k lo hi] False show ?thesis by (simp add: float_exponent_def ek)
qed

lemma fl64_eval:
  assumes "2 powi e \<le> \<bar>x\<bar>" and "\<bar>x\<bar> < 2 powi (e + 1)" and "- 1022 \<le> e"
  shows "fl64 x = of_int (round_half_even (x / 2 powi (e - 52))) * 2 powi (e - 52)"
proof -
  have "0 < (2::real) powi e" by simp
  with assms(1) have pos: "0 < \<bar>x\<bar>" by linarith
  from float_exponent_eqI [OF pos assms(1,2)] assms(3) pos show ?thesis
    by (simp add: fl64_def float_quantum_def max_def)
qed

lemma round_half_even_of_int: "round_half_even (of_int n) = n"
  by (simp add: round_half_even_def)

lemma round_half_even_le: "x \<le> of_int M \<Longrightarrow> round_half_even x \<le> M"
proof -
  assume a: "x \<le> of_int M"
  show ?thesis
  proof (cases "x = of_int M")
    case True
    then show ?thesis by (simp add: round_half_even_of_int)
  next
    case False
    with a have "x < of_int M" by simp
    then have "\<lfloor>x\<rfloor> < M" by (simp add: floor_less_iff)
    then have "\<lfloor>x\<rfloor> + 1 \<le> M" by simp
    then show ?thesis by (simp add: round_half_even_def)
  qed
qed

lemma round_half_even_ge: "of_int M \<le> x \<Longrightarrow> M \<le> round_half_even x"
proof -
  assume "of_int M \<le> x"
  then have "M \<le> \<lfloor>x\<rfloor>" by (simp add: le_floor_iff)
  then show ?thesis by (simp add: round_half_even_def)
qed

lemma float_exponent_log:
  assumes "0 < x"
  shows "float_exponent x = \<lfloor>log 2 x\<rfloor>"
proof (rule float_exponent_eqI [OF assms])
  have "2 powr (of_int \<lfloor>log 2 x\<rfloor>) \<le> 2 powr (log 2 x)"
    by (intro powr_mono) simp_all
  then show "2 powi \<lfloor>log 2 x\<rfloor> \<le> x" using assms by (simp add: powr_real_of_int')
  have eq: "(2::real) powi k = 2 powr (of_int k)" for k by (simp add: powr_real_of_int')
  have "x = 2 powr (log 2 x)" using assms by simp
  also have "\<dots> < 2 powr (of_int (\<lfloor>log 2 x\<rfloor> + 1))"
    by (intro powr_less_mono) simp_all
  finally show "x < 2 powi (\<lfloor>log 2 x\<rfloor> + 1)" unfolding eq .
qed

lemma float_exponent_bounds:
  assumes "0 < x"
  shows "2 powi (float_exponent x) \<le> x" and "x < 2 powi (float_exponent x + 1)"
proof -
  have "2 powr (of_int \<lfloor>log 2 x\<rfloor>) \<le> 2 powr (log 2 x)"
    by (intro powr_mono) simp_all
  then show "2 powi (float_exponent x) \<le> x"
    using assms by (simp add: powr_real_of_int' float_exponent_log)
  have eq: "(2::real) powi k = 2 powr (of_int k)" for k by (simp add: powr_real_of_int')
  have "x = 2 powr (log 2 x)" using assms by simp
  also have "\<dots> < 2 powr (of_int (\<lfloor>log 2 x\<rfloor> + 1))"
    by (intro powr_less_mono) simp_all
  finally show "x < 2 powi (float_exponent x + 1)"
    unfolding eq float_exponent_log [OF assms] .
qed

lemma float_quantum_pos: "0 < float_quantum x"
  by (simp add: float_quantum_def)

lemma fl64_nonneg: "0 \<le> x \<Longrightarrow> 0 \<le> fl64 x"
proof -
  assume "0 \<le> x"
  then have "of_int 0 \<le> x / float_quantum x" using float_quantum_pos [of x] by simp
  then have "0 \<le> round_half_even (x / float_quantum x)" by (rule round_half_even_ge)
  then show ?thesis using float_quantum_pos [of x] by (simp add: fl64_def)
qed

text \<open>A multiple of the quantum above \<open>x\<close> bounds the rounded value.\<close>

lemma fl64_le_multiple:
  assumes "x \<le> of_int M * float_quantum x"
  shows "fl64 x \<le> of_int M * float_quantum x"
proof (cases "x = 0")
  case True
  with assms show ?thesis by (simp add: fl64_def)
next
  case False
  have "x / float_quantum x \<le> of_int M"
    using assms float_quantum_pos [of x] by (simp add: field_simps)
  then have "round_half_even (x / float_quantum x) \<le> M" by (rule round_half_even_le)
  then have "of_int (round_half_even (x / float_quantum x)) * float_quantum x
               \<le> of_int M * float_quantum x"
    using float_quantum_pos [of x] by simp
  with False show ?thesis by (simp add: fl64_def)
qed

lemma fl64_ge_multiple:
  assumes "of_int M * float_quantum x \<le> x"
  shows "of_int M * float_quantum x \<le> fl64 x"
proof (cases "x = 0")
  case True
  with assms show ?thesis by (simp add: fl64_def)
next
  case False
  have "of_int M \<le> x / float_quantum x"
    using assms float_quantum_pos [of x] by (simp add: field_simps)
  then have "M \<le> round_half_even (x / float_quantum x)" by (rule round_half_even_ge)
  then have "of_int M * float_quantum x
               \<le> of_int (round_half_even (x / float_quantum x)) * float_quantum x"
    using float_quantum_pos [of x] by simp
  with False show ?thesis by (simp add: fl64_def)
qed

text \<open>Below \<open>2^53\<close> every integer is a multiple of the quantum.\<close>

lemma int_multiple_of_quantum:
  assumes "0 < x" and "x < 2 ^ 53"
  shows "\<exists>M. of_int N = of_int M * float_quantum x"
proof -
  have "float_exponent x < 53"
  proof (rule ccontr)
    assume "\<not> float_exponent x < 53"
    then have "(2::real) powi 53 \<le> 2 powi (float_exponent x)"
      by (intro power_int_increasing) simp_all
    with float_exponent_bounds(1) [OF assms(1)] assms(2) show False by simp
  qed
  define j where "j = 52 - max (float_exponent x) (- 1022)"
  have j: "0 \<le> j" using \<open>float_exponent x < 53\<close> by (simp add: j_def)
  have q: "float_quantum x = 1 / 2 ^ nat j"
  proof -
    have "float_quantum x = 2 powi (- j)" using assms(1) by (simp add: float_quantum_def j_def)
    also have "\<dots> = 1 / 2 ^ nat j" using j by (simp add: power_int_def field_simps)
    finally show ?thesis .
  qed
  have "of_int N = of_int (N * 2 ^ nat j) * float_quantum x" by (simp add: q)
  then show ?thesis ..
qed

lemma fl64_le_int:
  assumes "0 \<le> x" and "x \<le> of_int N" and "N \<le> 2 ^ 53"
  shows "fl64 x \<le> of_int N"
proof (cases "x = 0 \<or> x = 2 ^ 53")
  case True
  then show ?thesis
  proof
    assume "x = 0" with assms show ?thesis by (simp add: fl64_def)
  next
    assume x: "x = 2 ^ 53"
    have "fl64 x = of_int (round_half_even (x / 2 powi (53 - 52))) * 2 powi (53 - 52)"
      by (rule fl64_eval) (simp_all add: x)
    also have "\<dots> = 2 ^ 53" by (simp add: x round_half_even_def)
    finally show ?thesis using assms x by simp
  qed
next
  case False
  have "real_of_int N \<le> 2 ^ 53" using assms(3) by (metis of_int_le_iff of_int_numeral of_int_power)
  with False assms have pos: "0 < x" and lt: "x < 2 ^ 53" by simp_all
  from int_multiple_of_quantum [OF pos lt, of N] obtain M where
    M: "of_int N = of_int M * float_quantum x" ..
  from assms(2) have "fl64 x \<le> of_int M * float_quantum x"
    unfolding M by (rule fl64_le_multiple)
  then show ?thesis by (simp add: M)
qed

lemma fl64_of_nat: "n \<le> 2 ^ 53 \<Longrightarrow> fl64 (real n) = real n"
proof -
  assume n: "n \<le> 2 ^ 53"
  show ?thesis
  proof (rule antisym)
    have "int n \<le> 2 ^ 53" using n by (metis of_nat_le_iff of_nat_numeral of_nat_power)
    then have "fl64 (real n) \<le> of_int (int n)" by (intro fl64_le_int) simp_all
    then show "fl64 (real n) \<le> real n" by simp
  next
    show "real n \<le> fl64 (real n)"
    proof (cases "n = 0 \<or> n = 2 ^ 53")
      case True
      then show ?thesis
      proof
        assume "n = 0" then show ?thesis by (simp add: fl64_def)
      next
        assume x: "n = 2 ^ 53"
        have "fl64 (real n) =
                of_int (round_half_even (real n / 2 powi (53 - 52))) * 2 powi (53 - 52)"
          by (rule fl64_eval) (simp_all add: x)
        also have "\<dots> = 2 ^ 53" by (simp add: x round_half_even_def)
        finally show ?thesis using x by simp
      qed
    next
      case False
      with n have pos: "0 < real n" and "n < 2 ^ 53" by simp_all
      then have lt: "real n < 2 ^ 53" by (metis of_nat_less_iff of_nat_numeral of_nat_power)
      from int_multiple_of_quantum [OF pos lt, of "int n"] obtain M where
        M: "of_int (int n) = of_int M * float_quantum (real n)" ..
      have "of_int M * float_quantum (real n) \<le> fl64 (real n)"
        by (rule fl64_ge_multiple) (simp flip: M)
      then show ?thesis by (simp flip: M)
    qed
  qed
qed

text \<open>
  Evaluation on a number between \<open>2^(52-k)\<close> and \<open>2^(53-k)\<close>: the mantissa is the
  rounded multiple of \<open>2^-k\<close>.
\<close>

lemma fl64_frac:
  assumes "2 ^ 52 \<le> \<bar>x\<bar> * 2 ^ k" and "\<bar>x\<bar> * 2 ^ k < 2 ^ 53" and "k \<le> 1074"
  shows "fl64 x = of_int (round_half_even (x * 2 ^ k)) / 2 ^ k"
proof -
  have p: "(2::real) powi (52 - int k) = 2 ^ 52 / 2 ^ k"
    by (simp add: power_int_diff)
  have p1: "(2::real) powi (52 - int k + 1) = 2 ^ 53 / 2 ^ k"
    by (simp add: power_int_diff power_int_add)
  have p2: "(2::real) powi (52 - int k - 52) = 1 / 2 ^ k"
    by (simp add: power_int_minus field_simps)
  have "fl64 x = of_int (round_half_even (x / 2 powi (52 - int k - 52))) * 2 powi (52 - int k - 52)"
  proof (rule fl64_eval)
    show "2 powi (52 - int k) \<le> \<bar>x\<bar>" unfolding p using assms(1) by (simp add: field_simps)
    show "\<bar>x\<bar> < 2 powi (52 - int k + 1)" unfolding p1 using assms(2) by (simp add: field_simps)
    show "- 1022 \<le> 52 - int k" using assms(3) by simp
  qed
  then show ?thesis unfolding p2 by simp
qed

section \<open>Properties of the injector\<close>

lemma only_sets_refl: "only_sets d d"
  by (simp add: only_sets_def)

lemma only_sets_trans: "only_sets a b \<Longrightarrow> only_sets b c \<Longrightarrow> only_sets a c"
  unfolding only_sets_def by metis

lemma setitem_only_sets: "setitem d i j 1 = Inr d' \<Longrightarrow> only_sets d d'"
  by (auto simp: setitem_def only_sets_def split: option.splits)

lemma inject_items_only_sets:
  "inject_items rs nr t its d st = (e, d', st') \<Longrightarrow> only_sets d d'"
proof (induction its arbitrary: d st)
  case Nil
  then show ?case by (simp add: only_sets_refl)
next
  case (Cons item rest)
  obtain u st1 where draw: "rs_random rs st = (u, st1)"
    by (cases "rs_random rs st")
  show ?case
  proof (cases "u > nr")
    case False
    with Cons draw show ?thesis by simp
  next
    case True
    show ?thesis
    proof (cases "setitem d (int t) item 1")
      case (Inl err)
      with Cons.prems draw True show ?thesis by (simp add: only_sets_refl)
    next
      case (Inr d1)
      with Cons.prems draw True have "inject_items rs nr t rest d1 st1 = (e, d', st')"
        by simp
      then have "only_sets d1 d'" by (rule Cons.IH)
      with setitem_only_sets [OF Inr] show ?thesis by (rule only_sets_trans)
    qed
  qed
qed

lemma inject_rows_only_sets:
  "inject_rows rs nr ts its d st = (e, d', st') \<Longrightarrow> only_sets d d'"
proof (induction ts arbitrary: d st)
  case Nil
  then show ?case by (simp add: only_sets_refl)
next
  case (Cons t rest)
  obtain e1 d1 st1 where row: "inject_items rs nr t its d st = (e1, d1, st1)"
    by (cases "inject_items rs nr t its d st")
  have step: "only_sets d d1" using row by (rule inject_items_only_sets)
  show ?case
  proof (cases e1)
    case None
    with Cons.prems row have "inject_rows rs nr rest its d1 st1 = (e, d', st')" by simp
    then have "only_sets d1 d'" by (rule Cons.IH)
    with step show ?thesis by (rule only_sets_trans)
  next
    case (Some err)
    with Cons.prems row have "d' = d1" by simp
    with step show ?thesis by simp
  qed
qed

lemma inject_pattern_only_sets:
  "inject_pattern self rs d its ts nr st = (e, d', st') \<Longrightarrow> only_sets d d'"
  unfolding inject_pattern_def
  by (auto simp: only_sets_refl split: if_splits prod.splits sum.splits
           dest: inject_rows_only_sets)

lemma inject_multiple_only_sets:
  "inject_multiple_patterns self rs d ps st = (e, d', st') \<Longrightarrow> only_sets d d'"
proof (induction ps arbitrary: d st)
  case Nil
  then show ?case by (simp add: only_sets_refl)
next
  case (Cons p rest)
  obtain e1 d1 st1 where one:
    "inject_pattern self rs d (items p) (target_support p)
       (case noise_ratio p of None \<Rightarrow> 0 | Some noise \<Rightarrow> noise) st = (e1, d1, st1)"
    by (metis prod_cases3)
  have step: "only_sets d d1" using one by (rule inject_pattern_only_sets)
  show ?case
  proof (cases e1)
    case None
    with Cons.prems one have "inject_multiple_patterns self rs d1 rest st1 = (e, d', st')"
      by simp
    then have "only_sets d1 d'" by (rule Cons.IH)
    with step show ?thesis by (rule only_sets_trans)
  next
    case (Some err)
    with Cons.prems one have "d' = d1" by simp
    with step show ?thesis by simp
  qed
qed

subsection \<open>The number of injections\<close>

lemma py_int_floor: "0 \<le> x \<Longrightarrow> py_int x = \<lfloor>x\<rfloor>"
  by (simp add: py_int_def)

lemma real_le_2_53: "n \<le> 2 ^ 53 \<Longrightarrow> real n \<le> 2 ^ 53"
  by (metis of_nat_le_iff of_nat_numeral of_nat_power)

lemma not_float_overflows: "n \<le> 2 ^ 53 \<Longrightarrow> \<not> float_overflows (real n)"
proof -
  assume "n \<le> 2 ^ 53"
  then have "real n \<le> 2 ^ 53" by (rule real_le_2_53)
  moreover have "(2::real) ^ 53 < 2 ^ 1024 - 2 ^ 970" by simp
  ultimately show ?thesis by (simp add: float_overflows_def)
qed

lemma fl64_numerals:
  "fl64 1 = 1" "fl64 2 = 2" "fl64 3 = 3" "fl64 5 = 5" "fl64 10 = 10" "fl64 65 = 65"
  "fl64 100 = 100" "fl64 1000 = 1000"
  using fl64_of_nat [of 1] fl64_of_nat [of 2] fl64_of_nat [of 3] fl64_of_nat [of 5]
    fl64_of_nat [of 10] fl64_of_nat [of 65] fl64_of_nat [of 100] fl64_of_nat [of 1000]
  by simp_all

lemma adjusted_support_nonneg:
  assumes "0 \<le> ts" and "0 \<le> nr" and "nr < 1"
  shows "0 \<le> fl64 (ts * fl64 (1 / fl64 (1 - fl64 (nr * fl64 (7 / 10)))))"
proof -
  have c0: "0 \<le> fl64 (7 / 10)" by (rule fl64_nonneg) simp
  have "fl64 (7 / 10) \<le> of_int 1" by (rule fl64_le_int) simp_all
  then have c1: "fl64 (7 / 10) \<le> 1" by simp
  have "nr * fl64 (7 / 10) \<le> 1 * 1" using assms c0 c1 by (intro mult_mono) simp_all
  then have "fl64 (nr * fl64 (7 / 10)) \<le> of_int 1"
    using assms c0 by (intro fl64_le_int) simp_all
  then have "0 \<le> fl64 (1 - fl64 (nr * fl64 (7 / 10)))" by (intro fl64_nonneg) simp
  then have "0 \<le> fl64 (1 / fl64 (1 - fl64 (nr * fl64 (7 / 10))))" by (intro fl64_nonneg) simp
  with assms(1) have "0 \<le> ts * fl64 (1 / fl64 (1 - fl64 (nr * fl64 (7 / 10))))"
    by (rule mult_nonneg_nonneg)
  then show ?thesis by (rule fl64_nonneg)
qed

lemma num_injections_floor:
  assumes "0 \<le> ts" and "0 \<le> nr" and "nr < 1"
  shows "num_injections self ts nr =
           (if nr > 0
            then \<lfloor>fl64 (fl64 (real (num_transactions self)) *
                    min (fl64 (ts * fl64 (1 / fl64 (1 - fl64 (fl64 (7 / 10) * nr))))) 1)\<rfloor>
            else \<lfloor>fl64 (fl64 (real (num_transactions self)) * ts)\<rfloor>)"
proof -
  have n0: "0 \<le> fl64 (real (num_transactions self))" by (rule fl64_nonneg) simp
  show ?thesis
  proof (cases "nr > 0")
    case True
    have "0 \<le> min (fl64 (ts * fl64 (1 / fl64 (1 - fl64 (nr * fl64 (7 / 10)))))) 1"
      using adjusted_support_nonneg [OF assms] by simp
    with n0 have "0 \<le> fl64 (real (num_transactions self)) *
                 min (fl64 (ts * fl64 (1 / fl64 (1 - fl64 (nr * fl64 (7 / 10)))))) 1"
      by (rule mult_nonneg_nonneg)
    then have "0 \<le> fl64 (fl64 (real (num_transactions self)) *
                 min (fl64 (ts * fl64 (1 / fl64 (1 - fl64 (nr * fl64 (7 / 10)))))) 1)"
      by (rule fl64_nonneg)
    then show ?thesis using True
      by (simp add: num_injections_def Let_def py_int_floor mult.commute)
  next
    case False
    from n0 assms(1) have "0 \<le> fl64 (real (num_transactions self)) * ts"
      by (rule mult_nonneg_nonneg)
    then have "0 \<le> fl64 (fl64 (real (num_transactions self)) * ts)"
      by (rule fl64_nonneg)
    then show ?thesis using False by (simp add: num_injections_def py_int_floor)
  qed
qed

lemma num_injections_bounds:
  assumes "0 < ts" "ts \<le> 1" "0 \<le> nr" "nr < 1" and "num_transactions self \<le> 2 ^ 53"
  shows "0 \<le> num_injections self ts nr \<and> num_injections self ts nr \<le> int (num_transactions self)"
proof -
  define x where
    "x = (if nr > 0 then min (fl64 (ts * fl64 (1 / fl64 (1 - fl64 (nr * fl64 (7 / 10)))))) 1
          else ts)"
  have x01: "0 \<le> x \<and> x \<le> 1"
    using assms adjusted_support_nonneg [of ts nr] by (auto simp: x_def min_def)
  have n: "num_injections self ts nr = py_int (fl64 (real (num_transactions self) * x))"
    by (simp add: num_injections_def x_def Let_def fl64_of_nat [OF assms(5)])
  have nn: "0 \<le> real (num_transactions self) * x" using x01 by simp
  have le: "real (num_transactions self) * x \<le> of_int (int (num_transactions self))"
    using x01 by (simp add: mult_left_le)
  have "int (num_transactions self) \<le> 2 ^ 53"
    using assms(5) by (metis of_nat_le_iff of_nat_numeral of_nat_power)
  with nn le have "fl64 (real (num_transactions self) * x) \<le> of_int (int (num_transactions self))"
    by (intro fl64_le_int)
  then have "\<lfloor>fl64 (real (num_transactions self) * x)\<rfloor> \<le> int (num_transactions self)"
    by (simp add: floor_le_iff)
  moreover have "0 \<le> fl64 (real (num_transactions self) * x)" using nn by (rule fl64_nonneg)
  ultimately show ?thesis using n by (simp add: py_int_floor)
qed

lemma count_pos_indices:
  "length (filter (\<lambda>i. 0 < p ! i) [0..<length p]) = length (filter (\<lambda>x. 0 < x) (p :: real list))"
proof -
  have "filter (\<lambda>x. 0 < x) p = map (\<lambda>i. p ! i) (filter (\<lambda>i. 0 < p ! i) [0..<length p])"
    by (metis (mono_tags, lifting) filter_map map_nth comp_def filter_cong)
  then show ?thesis by (metis length_map)
qed

lemma demo_stream_ok: "np_random_ok demo_stream"
  unfolding np_random_ok_def demo_stream_def
  by (auto simp: count_pos_indices dest: in_set_takeD)

subsection \<open>Float evaluations\<close>

lemma float_tenth: "fl64 (1 / 10) = 3602879701896397 / 2 ^ 55"
  by (subst fl64_frac [where k = 56]) (simp_all add: round_half_even_def)

lemma float_fifth: "fl64 (1 / 5) = 3602879701896397 / 2 ^ 54"
  by (subst fl64_frac [where k = 55]) (simp_all add: round_half_even_def)

lemma float_07: "fl64 (7 / 10) = 6305039478318694 / 2 ^ 53"
  by (subst fl64_frac [where k = 53]) (simp_all add: round_half_even_def)

lemma float_013: "fl64 (13 / 100) = 1170935903116329 / 2 ^ 53"
  by (subst fl64_frac [where k = 55]) (simp_all add: round_half_even_def)

lemma float_001: "fl64 (1 / 100) = 5764607523034235 / 2 ^ 59"
  by (subst fl64_frac [where k = 59]) (simp_all add: round_half_even_def)

text \<open>The compensation factor for the noise ratios 0.2 and 0.5.\<close>

lemma compensation_02:
  "fl64 (1 / fl64 (1 - fl64 (fl64 (1 / 5) * fl64 (7 / 10)))) = 5236743752756391 / 2 ^ 52"
proof -
  have s1: "fl64 (3602879701896397 / 2 ^ 54 * (6305039478318694 / 2 ^ 53)) =
              5044031582654955 / 2 ^ 55"
    by (subst fl64_frac [where k = 55]) (simp_all add: round_half_even_def)
  have s2: "fl64 (1 - 5044031582654955 / 2 ^ 55) = 7746191359077253 / 2 ^ 53"
    by (subst fl64_frac [where k = 53]) (simp_all add: round_half_even_def)
  have s3: "fl64 (1 / (7746191359077253 / 2 ^ 53)) = 5236743752756391 / 2 ^ 52"
    by (subst fl64_frac [where k = 52]) (simp_all add: round_half_even_def)
  show ?thesis unfolding float_fifth float_07 s1 s2 s3 ..
qed

lemma compensation_05:
  "fl64 (1 / fl64 (1 - fl64 (1 / 2 * fl64 (7 / 10)))) = 866076851417403 / 2 ^ 49"
proof -
  have s1: "fl64 (1 / 2 * (6305039478318694 / 2 ^ 53)) = 3152519739159347 / 2 ^ 53"
    by (subst fl64_frac [where k = 54]) (simp_all add: round_half_even_def)
  have s2: "fl64 (1 - 3152519739159347 / 2 ^ 53) = 5854679515581645 / 2 ^ 53"
    by (subst fl64_frac [where k = 53]) (simp_all add: round_half_even_def)
  have s3: "fl64 (1 / (5854679515581645 / 2 ^ 53)) = 866076851417403 / 2 ^ 49"
    by (subst fl64_frac [where k = 52]) (simp_all add: round_half_even_def)
  show ?thesis unfolding float_07 s1 s2 s3 ..
qed

lemma num_injections_noisy:
  "num_injections \<lparr>num_transactions = 1000, num_items = 50\<rparr> (fl64 (1 / 10)) (fl64 (1 / 5)) = int 116"
proof -
  have s4: "fl64 (3602879701896397 / 2 ^ 55 * (5236743752756391 / 2 ^ 52)) =
              4189395002205113 / 2 ^ 55"
    by (subst fl64_frac [where k = 56]) (simp_all add: round_half_even_def)
  have m: "min (4189395002205113 / 2 ^ 55) (1::real) = 4189395002205113 / 2 ^ 55" by simp
  have s5: "fl64 (1000 * (4189395002205113 / 2 ^ 55)) = 8182412113681861 / 2 ^ 46"
    by (subst fl64_frac [where k = 46]) (simp_all add: round_half_even_def)
  have f: "py_int (8182412113681861 / 2 ^ 46) = 116" by (simp add: py_int_def)
  have r: "real (num_transactions \<lparr>num_transactions = 1000, num_items = 50\<rparr>) = 1000" by simp
  have p: "fl64 (1 / 5) > 0" unfolding float_fifth by simp
  have "num_injections \<lparr>num_transactions = 1000, num_items = 50\<rparr> (fl64 (1 / 10)) (fl64 (1 / 5)) =
          py_int (fl64 (fl64 (real (num_transactions \<lparr>num_transactions = 1000, num_items = 50\<rparr>)) *
            min (fl64 (fl64 (1 / 10) * fl64 (1 / fl64 (1 - fl64 (fl64 (1 / 5) * fl64 (7 / 10)))))) 1))"
    unfolding num_injections_def Let_def using p by (rule if_P)
  also have "\<dots> = 116"
    unfolding compensation_02 float_tenth s4 m r fl64_numerals s5 f ..
  finally show ?thesis by simp
qed

lemma num_injections_013:
  "num_injections \<lparr>num_transactions = 10, num_items = 50\<rparr> (fl64 (13 / 100)) (1 / 2) = 1"
proof -
  have s4: "fl64 (1170935903116329 / 2 ^ 53 * (866076851417403 / 2 ^ 49)) =
          7205759403792793 / 2 ^ 55"
    by (subst fl64_frac [where k = 55]) (simp_all add: round_half_even_def)
  have m: "min (7205759403792793 / 2 ^ 55) (1::real) = 7205759403792793 / 2 ^ 55" by simp
  have s5: "fl64 (10 * (7205759403792793 / 2 ^ 55)) = 9007199254740991 / 2 ^ 52"
    by (subst fl64_frac [where k = 52]) (simp_all add: round_half_even_def)
  have f: "py_int (9007199254740991 / 2 ^ 52) = 1" by (simp add: py_int_def)
  have r: "real (num_transactions \<lparr>num_transactions = 10, num_items = 50\<rparr>) = 10" by simp
  have p: "(1 / 2 :: real) > 0" by simp
  have "num_injections \<lparr>num_transactions = 10, num_items = 50\<rparr> (fl64 (13 / 100)) (1 / 2) =
          py_int (fl64 (fl64 (real (num_transactions \<lparr>num_transactions = 10, num_items = 50\<rparr>)) *
            min (fl64 (fl64 (13 / 100) * fl64 (1 / fl64 (1 - fl64 (1 / 2 * fl64 (7 / 10)))))) 1))"
    unfolding num_injections_def Let_def using p by (rule if_P)
  also have "\<dots> = 1"
    unfolding compensation_05 float_013 s4 m r fl64_numerals s5 f ..
  finally show ?thesis .
qed

lemma num_injections_001:
  "num_injections \<lparr>num_transactions = 65, num_items = 50\<rparr> (fl64 (1 / 100)) (1 / 2) = 0"
proof -
  have s4: "fl64 (5764607523034235 / 2 ^ 59 * (866076851417403 / 2 ^ 49)) =
          8868626958514207 / 2 ^ 59"
    by (subst fl64_frac [where k = 59]) (simp_all add: round_half_even_def)
  have m: "min (8868626958514207 / 2 ^ 59) (1::real) = 8868626958514207 / 2 ^ 59" by simp
  have s5: "fl64 (65 * (8868626958514207 / 2 ^ 59)) = 9007199254740991 / 2 ^ 53"
    by (subst fl64_frac [where k = 53]) (simp_all add: round_half_even_def)
  have f: "py_int (9007199254740991 / 2 ^ 53) = 0" by (simp add: py_int_def)
  have r: "real (num_transactions \<lparr>num_transactions = 65, num_items = 50\<rparr>) = 65" by simp
  have p: "(1 / 2 :: real) > 0" by simp
  have "num_injections \<lparr>num_transactions = 65, num_items = 50\<rparr> (fl64 (1 / 100)) (1 / 2) =
          py_int (fl64 (fl64 (real (num_transactions \<lparr>num_transactions = 65, num_items = 50\<rparr>)) *
            min (fl64 (fl64 (1 / 100) * fl64 (1 / fl64 (1 - fl64 (1 / 2 * fl64 (7 / 10)))))) 1))"
    unfolding num_injections_def Let_def using p by (rule if_P)
  also have "\<dots> = 0"
    unfolding compensation_05 float_001 s4 m r fl64_numerals s5 f ..
  finally show ?thesis .
qed

lemma num_injections_noiseless:
  "num_injections \<lparr>num_transactions = 1000, num_items = 50\<rparr> (1 / 10) 0 = int 100"
  by (simp add: num_injections_def fl64_numerals py_int_def)

lemma num_injections_noiseless_float:
  "num_injections \<lparr>num_transactions = 1000, num_items = 50\<rparr> (fl64 (1 / 10)) 0 = int 100"
proof -
  have s: "fl64 (1000 * (3602879701896397 / 2 ^ 55)) = 100"
    by (subst fl64_frac [where k = 46]) (simp_all add: round_half_even_def)
  have "num_injections \<lparr>num_transactions = 1000, num_items = 50\<rparr> (fl64 (1 / 10)) 0 =
          py_int (fl64 (fl64 1000 * fl64 (1 / 10)))"
    by (simp add: num_injections_def)
  also have "\<dots> = py_int 100" unfolding fl64_numerals float_tenth s ..
  finally show ?thesis by (simp add: py_int_def)
qed

lemma num_injections_five:
  "num_injections \<lparr>num_transactions = 5, num_items = 50\<rparr> (fl64 (1 / 10)) 0 = 0"
proof -
  have s: "fl64 (5 * (3602879701896397 / 2 ^ 55)) = 1 / 2"
    by (subst fl64_frac [where k = 53]) (simp_all add: round_half_even_def)
  have "num_injections \<lparr>num_transactions = 5, num_items = 50\<rparr> (fl64 (1 / 10)) 0 =
          py_int (fl64 (fl64 5 * fl64 (1 / 10)))"
    by (simp add: num_injections_def)
  also have "\<dots> = py_int (1 / 2)" unfolding fl64_numerals float_tenth s ..
  finally show ?thesis by (simp add: py_int_def)
qed

text \<open>
  C3. For a valid call of \<^verbatim>\<open>inject_pattern\<close> the number of targeted transactions is the
  floor of \<open>num_transactions * min (support * (1 / (1 - 0.7 * noise))) 1\<close> when the
  noise ratio is positive and of \<open>num_transactions * support\<close> when it is zero, where
  every operation is a float64 operation (its exact result rounded by \<open>fl64\<close>). When
  this number is 0 the call returns the array and the stream untouched. A
  \<^verbatim>\<open>num_transactions\<close> that fits no float raises \<^verbatim>\<open>OverflowError\<close> instead; one of at most
  \<open>2^53\<close> is converted exactly, the number then lies between 0 and \<^verbatim>\<open>num_transactions\<close>,
  and when it is not 0 exactly that many rows are requested from the stream and handed
  to the injection loop.
\<close>

theorem inject_pattern_num_injections:
  assumes "pattern_items \<noteq> []"
    and "\<forall>item\<in>set pattern_items. 0 \<le> item \<and> item < int (num_items self)"
    and "0 < support" and "support \<le> 1"
    and "0 \<le> noise" and "noise < 1"
  shows "num_injections self support noise =
           (if noise > 0
            then \<lfloor>fl64 (fl64 (real (num_transactions self)) *
                    min (fl64 (support * fl64 (1 / fl64 (1 - fl64 (fl64 (7 / 10) * noise))))) 1)\<rfloor>
            else \<lfloor>fl64 (fl64 (real (num_transactions self)) * support)\<rfloor>) \<and>
         (\<not> float_overflows (real (num_transactions self)) \<and>
          num_injections self support noise = 0 \<longrightarrow>
            inject_pattern self rs d pattern_items support noise st = (None, d, st)) \<and>
         (float_overflows (real (num_transactions self)) \<longrightarrow>
            inject_pattern self rs d pattern_items support noise st =
              (Some OverflowError, d, st)) \<and>
         (num_transactions self \<le> 2 ^ 53 \<longrightarrow>
            0 \<le> num_injections self support noise \<and>
            num_injections self support noise \<le> int (num_transactions self)) \<and>
         (num_transactions self \<le> 2 ^ 53 \<and> num_injections self support noise \<noteq> 0 \<longrightarrow>
            inject_pattern self rs d pattern_items support noise st =
              inject_rows rs noise
                (fst (rs_choice rs (num_transactions self)
                        (nat (num_injections self support noise)) st))
                pattern_items d
                (snd (rs_choice rs (num_transactions self)
                        (nat (num_injections self support noise)) st)))"
proof (intro conjI impI)
  show "num_injections self support noise =
           (if noise > 0
            then \<lfloor>fl64 (fl64 (real (num_transactions self)) *
                    min (fl64 (support * fl64 (1 / fl64 (1 - fl64 (fl64 (7 / 10) * noise))))) 1)\<rfloor>
            else \<lfloor>fl64 (fl64 (real (num_transactions self)) * support)\<rfloor>)"
    using assms by (intro num_injections_floor) simp_all
next
  assume "\<not> float_overflows (real (num_transactions self)) \<and>
          num_injections self support noise = 0"
  then show "inject_pattern self rs d pattern_items support noise st = (None, d, st)"
    using assms by (auto simp: inject_pattern_def)
next
  assume "float_overflows (real (num_transactions self))"
  then show "inject_pattern self rs d pattern_items support noise st =
               (Some OverflowError, d, st)"
    using assms by (auto simp: inject_pattern_def)
next
  assume "num_transactions self \<le> 2 ^ 53"
  with assms show "0 \<le> num_injections self support noise"
    using num_injections_bounds [of support noise self] by simp
next
  assume "num_transactions self \<le> 2 ^ 53"
  with assms show "num_injections self support noise \<le> int (num_transactions self)"
    using num_injections_bounds [of support noise self] by simp
next
  assume a: "num_transactions self \<le> 2 ^ 53 \<and> num_injections self support noise \<noteq> 0"
  then have small: "num_transactions self \<le> 2 ^ 53"
    and nz: "num_injections self support noise \<noteq> 0" by simp_all
  have b: "0 \<le> num_injections self support noise \<and>
           num_injections self support noise \<le> int (num_transactions self)"
    using assms small by (intro num_injections_bounds)
  then have "num_transactions self \<noteq> 0" using nz by auto
  then have "np_choice rs (num_transactions self)
               (num_injections self support noise) st =
             (Inr (fst (rs_choice rs (num_transactions self)
                     (nat (num_injections self support noise)) st)),
              snd (rs_choice rs (num_transactions self)
                     (nat (num_injections self support noise)) st))"
    using b by (simp add: np_choice_def split: prod.splits)
  then show "inject_pattern self rs d pattern_items support noise st =
              inject_rows rs noise
                (fst (rs_choice rs (num_transactions self)
                        (nat (num_injections self support noise)) st))
                pattern_items d
                (snd (rs_choice rs (num_transactions self)
                        (nat (num_injections self support noise)) st))"
    using assms nz not_float_overflows [OF small] by (auto simp: inject_pattern_def)
qed

lemma float_tenth_range: "0 < fl64 (1 / 10)" "fl64 (1 / 10) \<le> 1"
  unfolding float_tenth by simp_all

lemma float_fifth_range: "0 \<le> fl64 (1 / 5)" "0 < fl64 (1 / 5)" "fl64 (1 / 5) < 1"
  unfolding float_fifth by simp_all

theorem inject_pattern_num_injections_witness:
  "\<lfloor>fl64 (fl64 (real (1000::nat)) *
      min (fl64 (fl64 (1 / 10) * fl64 (1 / fl64 (1 - fl64 (fl64 (7 / 10) * fl64 (1 / 5)))))) 1)\<rfloor> = 116 \<and>
   inject_pattern \<lparr>num_transactions = 5, num_items = 50\<rparr> demo_stream (zeros 5 50)
     [5, 10, 15] (fl64 (1 / 10)) 0 0 = (None, zeros 5 50, 0)"
proof -
  have v: "[5, 10, 15] \<noteq> ([] :: int list)"
    "\<forall>item\<in>set [5, 10, 15]. 0 \<le> item \<and>
       item < int (num_items \<lparr>num_transactions = 1000, num_items = 50\<rparr>)"
    "\<forall>item\<in>set [5, 10, 15]. 0 \<le> item \<and>
       item < int (num_items \<lparr>num_transactions = 5, num_items = 50\<rparr>)"
    by simp_all
  have z: "(0::real) \<le> 0" "(0::real) < 1" by simp_all
  have a: "\<lfloor>fl64 (fl64 (real (1000::nat)) *
      min (fl64 (fl64 (1 / 10) * fl64 (1 / fl64 (1 - fl64 (fl64 (7 / 10) * fl64 (1 / 5)))))) 1)\<rfloor> = 116"
    using inject_pattern_num_injections
      [OF v(1) v(2) float_tenth_range float_fifth_range(1,3), of demo_stream "zeros 1000 50" 0]
      float_fifth_range(2)
    by (simp add: num_injections_noisy)
  have b: "inject_pattern \<lparr>num_transactions = 5, num_items = 50\<rparr> demo_stream (zeros 5 50)
     [5, 10, 15] (fl64 (1 / 10)) 0 0 = (None, zeros 5 50, 0)"
    using inject_pattern_num_injections
      [OF v(1) v(3) float_tenth_range z, of demo_stream "zeros 5 50" 0]
    by (simp add: num_injections_five float_overflows_def)
  from a b show ?thesis by simp
qed

text \<open>
  The floor of the same expression over the reals is another number: with ten
  transactions, support 0.13 and noise ratio 0.5 the float product is
  1.9999999999999998 and one row is targeted where the exact product exceeds 2; with 65
  transactions and support 0.01 the call is a no-op where the exact product exceeds 1.
\<close>

theorem num_injections_below_exact_formula:
  "num_injections \<lparr>num_transactions = 10, num_items = 50\<rparr> (fl64 (13 / 100)) (1 / 2) = 1 \<and>
   \<lfloor>real (10::nat) * min (fl64 (13 / 100) * (1 / (1 - 7 / 10 * (1 / 2)))) 1\<rfloor> = 2 \<and>
   num_injections \<lparr>num_transactions = 65, num_items = 50\<rparr> (fl64 (1 / 100)) (1 / 2) = 0 \<and>
   \<lfloor>real (65::nat) * min (fl64 (1 / 100) * (1 / (1 - 7 / 10 * (1 / 2)))) 1\<rfloor> = 1 \<and>
   inject_pattern \<lparr>num_transactions = 65, num_items = 50\<rparr> demo_stream (zeros 65 50)
     [5, 10, 15] (fl64 (1 / 100)) (1 / 2) 0 = (None, zeros 65 50, 0)"
proof -
  have a: "\<lfloor>real (10::nat) * min (fl64 (13 / 100) * (1 / (1 - 7 / 10 * (1 / 2)))) 1\<rfloor> = 2"
    unfolding float_013 by simp
  have b: "\<lfloor>real (65::nat) * min (fl64 (1 / 100) * (1 / (1 - 7 / 10 * (1 / 2)))) 1\<rfloor> = 1"
    unfolding float_001 by simp
  have r: "0 < fl64 (1 / 100)" "fl64 (1 / 100) \<le> 1" unfolding float_001 by simp_all
  have c: "inject_pattern \<lparr>num_transactions = 65, num_items = 50\<rparr> demo_stream (zeros 65 50)
     [5, 10, 15] (fl64 (1 / 100)) (1 / 2) 0 = (None, zeros 65 50, 0)"
    using r by (simp add: inject_pattern_def num_injections_001 float_overflows_def)
  from a b c num_injections_013 num_injections_001 show ?thesis by simp
qed

section \<open>Fail-fast validation, binary cells and reproducibility\<close>


lemma inject_multiple_append:
  "inject_multiple_patterns self rs d (xs @ ys) st =
     (case inject_multiple_patterns self rs d xs st of
        (Some e, d', st') \<Rightarrow> (Some e, d', st')
      | (None, d', st') \<Rightarrow> inject_multiple_patterns self rs d' ys st')"
  by (induction xs arbitrary: d st) (auto split: prod.splits option.splits)

lemma inject_pattern_invalid:
  assumes "its = [] \<or> (\<exists>item\<in>set its. item < 0 \<or> int (num_items self) \<le> item) \<or>
           \<not> (0 < support \<and> support \<le> 1) \<or> \<not> (0 \<le> noise \<and> noise < 1)"
  shows "inject_pattern self rs d its support noise st = (Some ValueError, d, st)"
  using assms unfolding inject_pattern_def by auto

text \<open>
  C6. A call of \<^verbatim>\<open>inject_pattern\<close> whose arguments violate a precondition (no items, an
  item outside \<open>[0, num_items)\<close>, a support outside \<open>(0, 1]\<close>, a noise ratio outside
  \<open>[0, 1)\<close>) raises \<^verbatim>\<open>ValueError\<close> and leaves the array and the stream as they were.
  In \<^verbatim>\<open>inject_multiple_patterns\<close> the first invalid pattern ends the run with that error:
  the patterns after it are not applied, and the array is the one the patterns before
  it produced.
\<close>

theorem inject_invalid_fail_fast:
  "(its = [] \<or> (\<exists>item\<in>set its. item < 0 \<or> int (num_items self) \<le> item) \<or>
    \<not> (0 < support \<and> support \<le> 1) \<or> \<not> (0 \<le> noise \<and> noise < 1) \<longrightarrow>
      inject_pattern self rs d its support noise st = (Some ValueError, d, st)) \<and>
   ((items p = [] \<or> (\<exists>item\<in>set (items p). item < 0 \<or> int (num_items self) \<le> item) \<or>
     \<not> (0 < target_support p \<and> target_support p \<le> 1) \<or>
     \<not> (0 \<le> (case noise_ratio p of None \<Rightarrow> 0 | Some n \<Rightarrow> n) \<and>
        (case noise_ratio p of None \<Rightarrow> 0 | Some n \<Rightarrow> n) < 1)) \<and>
    inject_multiple_patterns self rs d before st = (None, d', st') \<longrightarrow>
      inject_multiple_patterns self rs d (before @ p # after) st = (Some ValueError, d', st'))"
proof (intro conjI impI)
  assume "its = [] \<or> (\<exists>item\<in>set its. item < 0 \<or> int (num_items self) \<le> item) \<or>
    \<not> (0 < support \<and> support \<le> 1) \<or> \<not> (0 \<le> noise \<and> noise < 1)"
  then show "inject_pattern self rs d its support noise st = (Some ValueError, d, st)"
    by (rule inject_pattern_invalid)
next
  assume a: "(items p = [] \<or> (\<exists>item\<in>set (items p). item < 0 \<or> int (num_items self) \<le> item) \<or>
     \<not> (0 < target_support p \<and> target_support p \<le> 1) \<or>
     \<not> (0 \<le> (case noise_ratio p of None \<Rightarrow> 0 | Some n \<Rightarrow> n) \<and>
        (case noise_ratio p of None \<Rightarrow> 0 | Some n \<Rightarrow> n) < 1)) \<and>
    inject_multiple_patterns self rs d before st = (None, d', st')"
  then have "inject_pattern self rs d' (items p) (target_support p)
               (case noise_ratio p of None \<Rightarrow> 0 | Some n \<Rightarrow> n) st' = (Some ValueError, d', st')"
    by (intro inject_pattern_invalid) blast
  with a show "inject_multiple_patterns self rs d (before @ p # after) st =
                 (Some ValueError, d', st')"
    by (simp add: inject_multiple_append)
qed

lemma binary_only_sets: "binary a \<Longrightarrow> only_sets a b \<Longrightarrow> binary b"
  unfolding binary_def only_sets_def by metis

lemma binary_zeros: "binary (zeros r c)"
  by (simp add: binary_def zeros_def)

lemma setitems_only_sets: "setitems a i js 1 = Inr b \<Longrightarrow> only_sets a b"
proof (induction js arbitrary: a)
  case Nil
  then show ?case by (simp add: only_sets_refl)
next
  case (Cons j js)
  then obtain a1 where s: "setitem a i (int j) 1 = Inr a1" and r: "setitems a1 i js 1 = Inr b"
    by (auto split: sum.splits)
  from setitem_only_sets [OF s] Cons.IH [OF r] show ?case by (rule only_sets_trans)
qed

lemma generate_rows_only_sets:
  "generate_rows self rs p is a st = (Inr b, st') \<Longrightarrow> only_sets a b"
proof (induction "is" arbitrary: a st)
  case Nil
  then show ?case by (simp add: only_sets_refl)
next
  case (Cons i rest)
  from Cons.prems obtain l st1 sel st2 a1 where
    "setitems a (int i) sel 1 = Inr a1" and r: "generate_rows self rs p rest a1 st2 = (Inr b, st')"
    by (auto split: prod.splits sum.splits)
  then have "only_sets a a1" by (intro setitems_only_sets)
  with Cons.IH [OF r] show ?case by (blast intro: only_sets_trans)
qed

lemma generate_transactions_binary:
  "generate_transactions self rs p st = (Inr a, st') \<Longrightarrow> binary a"
  unfolding generate_transactions_def
  by (blast intro: binary_only_sets binary_zeros dest: generate_rows_only_sets)

text \<open>
  C9. Every cell of the array that \<^verbatim>\<open>generate\<close> returns is 0 or 1: base sampling
  yields a binary array, and injection of one pattern or of a list of patterns maps a
  binary array to a binary array, whatever the configuration, the seed and the stream.
\<close>

theorem generate_cells_binary:
  "(generate_transactions self rs p st = (Inr a, st') \<longrightarrow> binary a) \<and>
   (binary d \<and> inject_pattern (injector self) rs d its support noise st = (e, d', st') \<longrightarrow>
      binary d') \<and>
   (binary d \<and> inject_multiple_patterns (injector self) rs d ps st = (e, d', st') \<longrightarrow>
      binary d') \<and>
   (fst (generate self rs seed st) = Inr b \<longrightarrow> binary b)"
proof (intro conjI impI)
  assume "generate_transactions self rs p st = (Inr a, st')"
  then show "binary a" by (rule generate_transactions_binary)
next
  assume "binary d \<and> inject_pattern (injector self) rs d its support noise st = (e, d', st')"
  then show "binary d'" by (blast intro: binary_only_sets dest: inject_pattern_only_sets)
next
  assume "binary d \<and> inject_multiple_patterns (injector self) rs d ps st = (e, d', st')"
  then show "binary d'" by (blast intro: binary_only_sets dest: inject_multiple_only_sets)
next
  assume g: "fst (generate self rs seed st) = Inr b"
  show "binary b"
  proof (cases "patterns self = []")
    case True
    with g obtain item_probs st0 st1 where
      "generate_transactions self rs item_probs st0 = (Inr b, st1)"
      by (auto simp: generate_def split: sum.splits prod.splits option.splits)
    then show ?thesis by (rule generate_transactions_binary)
  next
    case False
    with g obtain item_probs st0 st1 a st2 where
      t: "generate_transactions self rs item_probs st0 = (Inr a, st1)" and
      i: "inject_multiple_patterns (injector self) rs a (patterns self) st1 = (None, b, st2)"
      by (auto simp: generate_def split: sum.splits prod.splits option.splits)
    from t have "binary a" by (rule generate_transactions_binary)
    with i show ?thesis by (blast intro: binary_only_sets dest: inject_multiple_only_sets)
  qed
qed

lemma transaction_length_data:
  "transaction_length (self\<lparr>data := x\<rparr>) rs st = transaction_length self rs st"
  by (simp add: transaction_length_def split: prod.splits sum.splits)

lemma generate_rows_data:
  "generate_rows (self\<lparr>data := x\<rparr>) rs p is a st = generate_rows self rs p is a st"
  by (induction "is" arbitrary: a st)
     (simp_all add: transaction_length_data split: prod.splits sum.splits)

lemma generate_transactions_data:
  "generate_transactions (self\<lparr>data := x\<rparr>) rs p st = generate_transactions self rs p st"
  by (simp add: generate_transactions_def generate_rows_data)

lemma generate_seeded:
  "fst (generate (self\<lparr>data := x\<rparr>) rs (Some s) st) =
   fst (generate self rs (Some s) st0)"
proof (cases "np_seed rs s")
  case (Inl e)
  then show ?thesis by (simp add: generate_def)
next
  case seeded: (Inr sd)
  show ?thesis
  proof (cases "generate_item_frequencies (num_items (injector self))
                  (dist_method self) (dist_params self)")
    case (Inl e)
    with seeded show ?thesis by (simp add: generate_def)
  next
    case probs: (Inr item_probs)
    obtain r st1 where t: "generate_transactions self rs item_probs sd = (r, st1)"
      by (cases "generate_transactions self rs item_probs sd")
    show ?thesis
    proof (cases r)
      case (Inl e)
      with seeded probs t show ?thesis
        by (simp add: generate_def generate_transactions_data)
    next
      case (Inr a)
      with seeded probs t show ?thesis
        by (simp add: generate_def generate_transactions_data
                 split: prod.splits option.splits)
    qed
  qed
qed

text \<open>
  C2. With a seed given, the outcome of \<^verbatim>\<open>generate\<close> (the matrix returned, or the
  exception raised) is the same for two generators of identical configuration, whatever
  the state of the stream before the call and whatever array each generator had stored.
\<close>

theorem generate_seed_reproducible:
  "fst (generate (self\<lparr>data := d1\<rparr>) rs (Some s) st1) =
   fst (generate (self\<lparr>data := d2\<rparr>) rs (Some s) st2)"
  by (simp add: generate_seeded [where ?st0.0 = st1])

subsection \<open>Evaluation on the small configuration\<close>


lemma upt_0_2: "[0..<2] = [0, Suc 0]" by code_simp
lemma upt_0_3: "[0..<3] = [0, Suc 0, 2]" by code_simp

lemma demo_random_distribution: "random_distribution 3 = [Fl (1/3), Fl (1/3), Fl (1/3)]"
  by (simp add: random_distribution_def normalize_def np_sum_def numeral_3_eq_3)

lemma demo_item_frequencies: "generate_item_frequencies 3 ''random'' None = Inr [Fl (1/3), Fl (1/3), Fl (1/3)]"
  by (simp add: generate_item_frequencies_def demo_random_distribution)

lemma float_three_halves: "fl64 (3 / 2) = 3 / 2"
  by (subst fl64_frac [where k = 52]) (simp_all add: round_half_even_def)

lemma demo_transaction_length: "transaction_length demo_generator rs st = (Inr 1, st)"
  by (simp add: transaction_length_def demo_generator_def py_int_def float_overflows_def
        fl64_numerals float_three_halves)

lemma demo_num_injections:
  "num_injections \<lparr>num_transactions = 2, num_items = 3\<rparr> (1 / 2) 0 = 1"
  by (simp add: num_injections_def py_int_def fl64_numerals)

lemma demo_choice_p: "np_choice_p demo_stream 3 1 [Fl (1/3), Fl (1/3), Fl (1/3)] st = (Inr [0], Suc st)"
  by (simp add: np_choice_p_def demo_stream_def fl_val_def upt_0_3)


lemma demo_stream_sel:
  "rs_seed demo_stream s = nat s"
  "rs_poisson demo_stream lam st = (nat \<lfloor>lam\<rfloor>, Suc st)"
  "rs_choice demo_stream a k st = ([0..<k], Suc st)"
  "rs_choice_p demo_stream a k p st = (take k (filter (\<lambda>i. 0 < p ! i) [0..<a]), Suc st)"
  "rs_random demo_stream st = (1 / 2, Suc st)"
  by (simp_all add: demo_stream_def)

lemma demo_generate_tolist: "tolist (projr (fst (generate demo_generator demo_stream (Some 42) 0))) = [[1,1,0],[1,0,0]]"
  by (simp add: generate_def np_seed_def demo_item_frequencies generate_transactions_def demo_transaction_length demo_choice_p upt_0_2 upt_0_3 setitem_def
        np_index_def zeros_def tolist_def inject_pattern_def demo_num_injections float_overflows_def
        np_choice_def demo_stream_sel
        demo_generator_def [THEN arg_cong [where f = injector]]
        demo_generator_def [THEN arg_cong [where f = patterns]]
        demo_generator_def [THEN arg_cong [where f = dist_method]]
        demo_generator_def [THEN arg_cong [where f = dist_params]])


lemma demo_inject_one:
  "inject_multiple_patterns \<lparr>num_transactions = 2, num_items = 3\<rparr> demo_stream (zeros 2 3)
     [demo_pattern] 0 =
   (None, \<lparr>nrows = 2, ncols = 3, cell = (\<lambda>i j. 0)(0 := (\<lambda>j. 0)(Suc 0 := 1))\<rparr>, 2)"
  by (simp add: demo_pattern_def inject_pattern_def demo_num_injections float_overflows_def np_choice_def
        demo_stream_sel setitem_def np_index_def zeros_def)

theorem inject_invalid_fail_fast_witness:
  "inject_pattern \<lparr>num_transactions = 2, num_items = 3\<rparr> demo_stream (zeros 2 3) [1, 3] (1 / 2) 0 0 =
     (Some ValueError, zeros 2 3, 0) \<and>
   inject_multiple_patterns \<lparr>num_transactions = 2, num_items = 3\<rparr> demo_stream (zeros 2 3)
     ([demo_pattern] @ demo_pattern\<lparr>items := []\<rparr> # [demo_pattern]) 0 =
     (Some ValueError,
      \<lparr>nrows = 2, ncols = 3, cell = (\<lambda>i j. 0)(0 := (\<lambda>j. 0)(Suc 0 := 1))\<rparr>, 2)"
  using inject_invalid_fail_fast
    [of "[1, 3]" "\<lparr>num_transactions = 2, num_items = 3\<rparr>" "1 / 2" 0 demo_stream "zeros 2 3" 0
        "demo_pattern\<lparr>items := []\<rparr>" "[demo_pattern]"
        "\<lparr>nrows = 2, ncols = 3, cell = (\<lambda>i j. 0)(0 := (\<lambda>j. 0)(Suc 0 := 1))\<rparr>" 2
        "[demo_pattern]"]
    demo_inject_one
  by simp

lemma demo_generate:
  "fst (generate demo_generator demo_stream (Some 42) st) =
     Inr (projr (fst (generate demo_generator demo_stream (Some 42) st)))"
  by (simp add: generate_def np_seed_def demo_item_frequencies generate_transactions_def demo_transaction_length demo_choice_p upt_0_2 upt_0_3 setitem_def
        np_index_def zeros_def inject_pattern_def demo_num_injections float_overflows_def
        np_choice_def demo_stream_sel
        demo_generator_def [THEN arg_cong [where f = injector]]
        demo_generator_def [THEN arg_cong [where f = patterns]]
        demo_generator_def [THEN arg_cong [where f = dist_method]]
        demo_generator_def [THEN arg_cong [where f = dist_params]])

theorem generate_cells_binary_witness:
  "tolist (projr (fst (generate demo_generator demo_stream (Some 42) 0))) = [[1, 1, 0], [1, 0, 0]] \<and>
   binary (projr (fst (generate demo_generator demo_stream (Some 42) 0)))"
  using generate_cells_binary
    [where self = demo_generator and rs = demo_stream and seed = "Some 42" and st = 0
       and b = "projr (fst (generate demo_generator demo_stream (Some 42) 0))",
     THEN conjunct2, THEN conjunct2, THEN conjunct2, THEN mp, OF demo_generate [of 0]] demo_generate_tolist
  by simp

theorem generate_seed_reproducible_witness:
  "fst (generate (demo_generator\<lparr>data := None\<rparr>) demo_stream (Some 42) 0) =
   fst (generate (demo_generator\<lparr>data := Some (zeros 1 1)\<rparr>) demo_stream (Some 42) 7) \<and>
   tolist (projr (fst (generate demo_generator demo_stream (Some 42) 0))) = [[1, 1, 0], [1, 0, 0]]"
  using generate_seed_reproducible
    [where self = demo_generator and ?d1.0 = None and rs = demo_stream and s = 42 and ?st1.0 = 0
       and ?d2.0 = "Some (zeros 1 1)" and ?st2.0 = 7] demo_generate_tolist
  by simp

section \<open>Monotonicity and the support actually achieved\<close>

subsection \<open>verify is monotone\<close>

lemma list_all2_map2_conj:
  "list_all2 (\<longrightarrow>) a a' \<Longrightarrow> list_all2 (\<longrightarrow>) b b' \<Longrightarrow>
   list_all2 (\<longrightarrow>) (map2 (\<and>) a b) (map2 (\<and>) a' b')"
  by (auto simp: list_all2_conv_all_nth)

lemma count_true_mono:
  "list_all2 (\<longrightarrow>) v v' \<Longrightarrow> length (filter (\<lambda>b. b) v) \<le> length (filter (\<lambda>b. b) v')"
  by (induction rule: list_all2_induct) auto

lemma column_mono:
  "only_sets a b \<Longrightarrow>
   list_all2 (\<longrightarrow>) (map (\<lambda>i. cell a i c = 1) [0..<nrows a])
                      (map (\<lambda>i. cell b i c = 1) [0..<nrows b])"
proof -
  assume os: "only_sets a b"
  then have "\<And>i. cell a i c = 1 \<Longrightarrow> cell b i c = 1"
    unfolding only_sets_def by metis
  moreover have "nrows b = nrows a" using os by (simp add: only_sets_def)
  ultimately show ?thesis by (simp add: list_all2_conv_all_nth)
qed

lemma contains_pattern_mono:
  assumes "only_sets a b"
  shows "list_all2 (\<longrightarrow>) acc acc' \<Longrightarrow>
         (case contains_pattern a q acc of
            Inl e \<Rightarrow> contains_pattern b q acc' = Inl e
          | Inr v \<Rightarrow> (\<exists>v'. contains_pattern b q acc' = Inr v' \<and> list_all2 (\<longrightarrow>) v v'))"
proof (induction q arbitrary: acc acc')
  case Nil
  then show ?case by simp
next
  case (Cons item rest)
  have cols: "ncols b = ncols a" using assms by (simp add: only_sets_def)
  show ?case
  proof (cases "np_index (ncols a) item")
    case None
    then show ?thesis by (simp add: cols)
  next
    case (Some c)
    have "list_all2 (\<longrightarrow>)
            (map2 (\<and>) acc (map (\<lambda>i. cell a i c = 1) [0..<nrows a]))
            (map2 (\<and>) acc' (map (\<lambda>i. cell b i c = 1) [0..<nrows b]))"
      using Cons.prems column_mono [OF assms] by (rule list_all2_map2_conj)
    from Cons.IH [OF this] Some show ?thesis
      by (simp add: cols split: sum.splits)
  qed
qed

lemma verify_pattern_mono:
  assumes "only_sets a b" and "verify_pattern a q = Inr (Fl x)"
  shows "\<exists>y. verify_pattern b q = Inr (Fl y) \<and> x \<le> y"
proof (cases "q = []")
  case True
  with assms(2) show ?thesis by (simp add: verify_pattern_def)
next
  case False
  have rows: "nrows b = nrows a" using assms(1) by (simp add: only_sets_def)
  have init: "list_all2 (\<longrightarrow>) (replicate (nrows a) True) (replicate (nrows b) True)"
    by (simp add: rows list_all2_conv_all_nth)
  from assms(2) False obtain v where
    v: "contains_pattern a q (replicate (nrows a) True) = Inr v" and
    x: "np_true_divide (length (filter (\<lambda>b. b) v)) (nrows a) = Fl x"
    by (auto simp: verify_pattern_def split: sum.splits)
  from contains_pattern_mono [OF assms(1) init, of q] v obtain v' where
    v': "contains_pattern b q (replicate (nrows b) True) = Inr v'" and
    le: "list_all2 (\<longrightarrow>) v v'"
    by auto
  from x have pos: "nrows a \<noteq> 0" and xv: "x = real (length (filter (\<lambda>b. b) v)) / real (nrows a)"
    by (auto simp: np_true_divide_def split: if_splits)
  have "real (length (filter (\<lambda>b. b) v)) / real (nrows a)
          \<le> real (length (filter (\<lambda>b. b) v')) / real (nrows a)"
    using count_true_mono [OF le] by (simp add: divide_right_mono)
  then show ?thesis
    using False v' pos xv by (simp add: verify_pattern_def np_true_divide_def rows)
qed

lemma only_sets_cell_le:
  "binary a \<Longrightarrow> only_sets a b \<Longrightarrow> i < nrows a \<Longrightarrow> j < ncols a \<Longrightarrow> cell a i j \<le> cell b i j"
proof -
  assume "binary a" and "only_sets a b" and "i < nrows a" and "j < ncols a"
  then have "cell a i j = 0 \<or> cell a i j = 1" and "cell b i j = cell a i j \<or> cell b i j = 1"
    by (simp_all add: binary_def only_sets_def)
  then show ?thesis by auto
qed

text \<open>
  C10. An injection never clears a cell: after \<^verbatim>\<open>inject_pattern\<close> or
  \<^verbatim>\<open>inject_multiple_patterns\<close> (returned normally or left by an exception) every cell of a
  binary array is at least what it was, and for every item set the support that
  \<^verbatim>\<open>verify_pattern\<close> reported before is at most the support it reports after.
\<close>

theorem inject_never_clears:
  "(binary d \<and> inject_pattern self rs d its support noise st = (e, d', st') \<longrightarrow>
      (\<forall>i<nrows d. \<forall>j<ncols d. cell d i j \<le> cell d' i j)) \<and>
   (inject_pattern self rs d its support noise st = (e, d', st') \<and>
    verify_pattern d q = Inr (Fl x) \<longrightarrow>
      (\<exists>y. verify_pattern d' q = Inr (Fl y) \<and> x \<le> y)) \<and>
   (binary d \<and> inject_multiple_patterns self rs d ps st = (e, d', st') \<longrightarrow>
      (\<forall>i<nrows d. \<forall>j<ncols d. cell d i j \<le> cell d' i j)) \<and>
   (inject_multiple_patterns self rs d ps st = (e, d', st') \<and>
    verify_pattern d q = Inr (Fl x) \<longrightarrow>
      (\<exists>y. verify_pattern d' q = Inr (Fl y) \<and> x \<le> y))"
proof (intro conjI impI allI)
  fix i j
  assume "binary d \<and> inject_pattern self rs d its support noise st = (e, d', st')"
    and "i < nrows d" and "j < ncols d"
  then show "cell d i j \<le> cell d' i j"
    by (blast intro: only_sets_cell_le dest: inject_pattern_only_sets)
next
  assume "inject_pattern self rs d its support noise st = (e, d', st') \<and>
          verify_pattern d q = Inr (Fl x)"
  then show "\<exists>y. verify_pattern d' q = Inr (Fl y) \<and> x \<le> y"
    by (blast intro: verify_pattern_mono dest: inject_pattern_only_sets)
next
  fix i j
  assume "binary d \<and> inject_multiple_patterns self rs d ps st = (e, d', st')"
    and "i < nrows d" and "j < ncols d"
  then show "cell d i j \<le> cell d' i j"
    by (blast intro: only_sets_cell_le dest: inject_multiple_only_sets)
next
  assume "inject_multiple_patterns self rs d ps st = (e, d', st') \<and>
          verify_pattern d q = Inr (Fl x)"
  then show "\<exists>y. verify_pattern d' q = Inr (Fl y) \<and> x \<le> y"
    by (blast intro: verify_pattern_mono dest: inject_multiple_only_sets)
qed

subsection \<open>What verify computes\<close>

lemma map2_conj_upt:
  "length acc = n \<Longrightarrow>
   map2 (\<and>) acc (map f [0..<n]) = map (\<lambda>i. acc ! i \<and> f i) [0..<n]"
  by (rule nth_equalityI) auto

lemma np_index_valid: "0 \<le> i \<Longrightarrow> i < int n \<Longrightarrow> np_index n i = Some (nat i)"
  by (simp add: np_index_def)

lemma contains_pattern_eq:
  "\<forall>item\<in>set its. 0 \<le> item \<and> item < int (ncols a) \<Longrightarrow> length acc = nrows a \<Longrightarrow>
   contains_pattern a its acc =
     Inr (map (\<lambda>i. acc ! i \<and> (\<forall>item\<in>set its. cell a i (nat item) = 1)) [0..<nrows a])"
proof (induction its arbitrary: acc)
  case Nil
  then show ?case using map_nth [of acc] by simp
next
  case (Cons item rest)
  then have idx: "np_index (ncols a) item = Some (nat item)"
    by (simp add: np_index_valid)
  have "contains_pattern a (item # rest) acc =
          contains_pattern a rest
            (map (\<lambda>i. acc ! i \<and> cell a i (nat item) = 1) [0..<nrows a])"
    using Cons.prems(2) by (simp add: idx map2_conj_upt)
  also have "\<dots> = Inr (map (\<lambda>i. (acc ! i \<and> cell a i (nat item) = 1) \<and>
                          (\<forall>item\<in>set rest. cell a i (nat item) = 1)) [0..<nrows a])"
    using Cons.prems(1) by (subst Cons.IH) auto
  finally show ?case by (simp add: conj_assoc)
qed

lemma verify_pattern_eq:
  assumes "its \<noteq> []" and "\<forall>item\<in>set its. 0 \<le> item \<and> item < int (ncols a)"
  shows "verify_pattern a its = Inr (np_true_divide (card (full_rows a its)) (nrows a))"
proof -
  have cp: "contains_pattern a its (replicate (nrows a) True) =
              Inr (map (\<lambda>i. \<forall>item\<in>set its. cell a i (nat item) = 1) [0..<nrows a])"
    using contains_pattern_eq [of its a "replicate (nrows a) True"] assms(2)
    by (simp cong: map_cong)
  have "length (filter (\<lambda>b. b)
          (map (\<lambda>i. \<forall>item\<in>set its. cell a i (nat item) = 1) [0..<nrows a])) =
        length (filter (\<lambda>i. \<forall>item\<in>set its. cell a i (nat item) = 1) [0..<nrows a])"
    by (simp add: filter_map comp_def)
  also have "\<dots> = card ({i. \<forall>item\<in>set its. cell a i (nat item) = 1} \<inter> set [0..<nrows a])"
    by (rule distinct_length_filter) simp
  also have "{i. \<forall>item\<in>set its. cell a i (nat item) = 1} \<inter> set [0..<nrows a] =
             full_rows a its"
    by (auto simp: full_rows_def)
  finally show ?thesis
    using assms(1) by (simp add: verify_pattern_def cp)
qed

subsection \<open>The injection loops on valid indices\<close>

lemma setitem_valid:
  "t < nrows a \<Longrightarrow> 0 \<le> item \<Longrightarrow> item < int (ncols a) \<Longrightarrow>
   setitem a (int t) item 1 = Inr (a\<lparr>cell := (cell a)(t := (cell a t)(nat item := 1))\<rparr>)"
  by (simp add: setitem_def np_index_def)

lemma only_sets_keeps_one: "only_sets a b \<Longrightarrow> cell a i j = 1 \<Longrightarrow> cell b i j = 1"
  unfolding only_sets_def by metis

lemma inject_items_valid:
  assumes "\<forall>item\<in>set its. 0 \<le> item \<and> item < int (ncols d)" and "t < nrows d"
    and "inject_items rs nr t its d st = (e, d', st')"
  shows "e = None \<and> (\<forall>i j. i \<noteq> t \<or> j \<notin> nat ` set its \<longrightarrow> cell d' i j = cell d i j)"
  using assms
proof (induction its arbitrary: d st)
  case Nil
  then show ?case by simp
next
  case (Cons item rest)
  obtain u st1 where draw: "rs_random rs st = (u, st1)"
    by (cases "rs_random rs st")
  show ?case
  proof (cases "u > nr")
    case False
    with Cons.prems draw have run: "inject_items rs nr t rest d st1 = (e, d', st')"
      by simp
    from Cons.prems have "\<forall>item\<in>set rest. 0 \<le> item \<and> item < int (ncols d)" by simp
    from Cons.IH [OF this Cons.prems(2) run] show ?thesis by auto
  next
    case True
    define d1 where "d1 = d\<lparr>cell := (cell d)(t := (cell d t)(nat item := 1))\<rparr>"
    have set1: "setitem d (int t) item 1 = Inr d1"
      using Cons.prems by (simp add: setitem_valid d1_def)
    with Cons.prems draw True have run: "inject_items rs nr t rest d1 st1 = (e, d', st')"
      by simp
    have v1: "\<forall>item\<in>set rest. 0 \<le> item \<and> item < int (ncols d1)" and r1: "t < nrows d1"
      using Cons.prems by (simp_all add: d1_def)
    from Cons.IH [OF v1 r1 run]
    have ih: "e = None"
      "\<And>i j. i \<noteq> t \<or> j \<notin> nat ` set rest \<Longrightarrow> cell d' i j = cell d1 i j"
      by auto
    have "cell d' i j = cell d i j" if "i \<noteq> t \<or> j \<notin> nat ` set (item # rest)" for i j
    proof -
      from that have "cell d' i j = cell d1 i j" by (intro ih(2)) auto
      also from that have "\<dots> = cell d i j" by (auto simp: d1_def)
      finally show ?thesis .
    qed
    with ih(1) show ?thesis by blast
  qed
qed

lemma inject_items_kept:
  assumes inv: "\<And>s. P s \<Longrightarrow> nr < fst (rs_random rs s) \<and> P (snd (rs_random rs s))"
    and "P st"
    and "\<forall>item\<in>set its. 0 \<le> item \<and> item < int (ncols d)" and "t < nrows d"
    and "inject_items rs nr t its d st = (e, d', st')"
  shows "P st' \<and> (\<forall>item\<in>set its. cell d' t (nat item) = 1)"
  using assms(2-)
proof (induction its arbitrary: d st)
  case Nil
  then show ?case by simp
next
  case (Cons item rest)
  obtain u st1 where draw: "rs_random rs st = (u, st1)"
    by (cases "rs_random rs st")
  from inv [OF Cons.prems(1)] draw have u: "nr < u" and p1: "P st1" by simp_all
  define d1 where "d1 = d\<lparr>cell := (cell d)(t := (cell d t)(nat item := 1))\<rparr>"
  have set1: "setitem d (int t) item 1 = Inr d1"
    using Cons.prems by (simp add: setitem_valid d1_def)
  with Cons.prems draw u have run: "inject_items rs nr t rest d1 st1 = (e, d', st')"
    by simp
  have v1: "\<forall>item\<in>set rest. 0 \<le> item \<and> item < int (ncols d1)" and r1: "t < nrows d1"
    using Cons.prems by (simp_all add: d1_def)
  from Cons.IH [OF p1 v1 r1 run]
  have ih: "P st'" "\<forall>item\<in>set rest. cell d' t (nat item) = 1" by simp_all
  have "cell d1 t (nat item) = 1" by (simp add: d1_def)
  with inject_items_only_sets [OF run] have "cell d' t (nat item) = 1"
    by (rule only_sets_keeps_one)
  with ih show ?case by simp
qed

lemma inject_rows_valid:
  assumes "\<forall>item\<in>set its. 0 \<le> item \<and> item < int (ncols d)" and "\<forall>t\<in>set ts. t < nrows d"
    and "inject_rows rs nr ts its d st = (e, d', st')"
  shows "e = None \<and> (\<forall>i j. i \<notin> set ts \<or> j \<notin> nat ` set its \<longrightarrow> cell d' i j = cell d i j)"
  using assms
proof (induction ts arbitrary: d st)
  case Nil
  then show ?case by simp
next
  case (Cons t rest)
  obtain e1 d1 st1 where row: "inject_items rs nr t its d st = (e1, d1, st1)"
    by (cases "inject_items rs nr t its d st")
  from Cons.prems have t: "t < nrows d" by simp
  from inject_items_valid [OF Cons.prems(1) t row]
  have e1: "e1 = None"
    and f1: "\<And>i j. i \<noteq> t \<or> j \<notin> nat ` set its \<Longrightarrow> cell d1 i j = cell d i j"
    by auto
  from inject_items_only_sets [OF row]
  have shape: "nrows d1 = nrows d" "ncols d1 = ncols d" by (simp_all add: only_sets_def)
  from Cons.prems row e1 have run: "inject_rows rs nr rest its d1 st1 = (e, d', st')"
    by simp
  have v1: "\<forall>item\<in>set its. 0 \<le> item \<and> item < int (ncols d1)"
    and r1: "\<forall>t\<in>set rest. t < nrows d1"
    using Cons.prems by (simp_all add: shape)
  from Cons.IH [OF v1 r1 run]
  have ih: "e = None"
    "\<And>i j. i \<notin> set rest \<or> j \<notin> nat ` set its \<Longrightarrow> cell d' i j = cell d1 i j"
    by auto
  have "cell d' i j = cell d i j" if "i \<notin> set (t # rest) \<or> j \<notin> nat ` set its" for i j
  proof -
    from that have "cell d' i j = cell d1 i j" by (intro ih(2)) auto
    also from that have "\<dots> = cell d i j" by (intro f1) auto
    finally show ?thesis .
  qed
  with ih(1) show ?case by blast
qed

lemma inject_rows_kept:
  assumes inv: "\<And>s. P s \<Longrightarrow> nr < fst (rs_random rs s) \<and> P (snd (rs_random rs s))"
    and "P st"
    and "\<forall>item\<in>set its. 0 \<le> item \<and> item < int (ncols d)" and "\<forall>t\<in>set ts. t < nrows d"
    and "inject_rows rs nr ts its d st = (e, d', st')"
  shows "P st' \<and> (\<forall>t\<in>set ts. \<forall>item\<in>set its. cell d' t (nat item) = 1)"
  using assms(2-)
proof (induction ts arbitrary: d st)
  case Nil
  then show ?case by simp
next
  case (Cons t rest)
  obtain e1 d1 st1 where row: "inject_items rs nr t its d st = (e1, d1, st1)"
    by (cases "inject_items rs nr t its d st")
  from Cons.prems have t: "t < nrows d" by simp
  from inject_items_valid [OF Cons.prems(2) t row] have e1: "e1 = None" by simp
  from inject_items_kept [of P nr rs, OF inv Cons.prems(1) Cons.prems(2) t row]
  have p1: "P st1" and k1: "\<forall>item\<in>set its. cell d1 t (nat item) = 1" by simp_all
  from inject_items_only_sets [OF row]
  have shape: "nrows d1 = nrows d" "ncols d1 = ncols d" by (simp_all add: only_sets_def)
  from Cons.prems row e1 have run: "inject_rows rs nr rest its d1 st1 = (e, d', st')"
    by simp
  have v1: "\<forall>item\<in>set its. 0 \<le> item \<and> item < int (ncols d1)"
    and r1: "\<forall>t\<in>set rest. t < nrows d1"
    using Cons.prems by (simp_all add: shape)
  from Cons.IH [OF p1 v1 r1 run]
  have ih: "P st'" "\<forall>t\<in>set rest. \<forall>item\<in>set its. cell d' t (nat item) = 1" by simp_all
  from k1 inject_rows_only_sets [OF run]
  have "\<forall>item\<in>set its. cell d' t (nat item) = 1"
    by (blast intro: only_sets_keeps_one)
  with ih show ?case by simp
qed

lemma inject_rows_skipped:
  assumes "\<And>s. fst (rs_random rs s) \<le> nr"
  shows "inject_rows rs nr ts its d st = (e, d', st') \<Longrightarrow> e = None \<and> d' = d"
proof (induction ts arbitrary: st)
  case Nil
  then show ?case by simp
next
  case (Cons t rest)
  have items: "fst (inject_items rs nr t its d s) = None \<and>
               fst (snd (inject_items rs nr t its d s)) = d" for s
  proof (induction its arbitrary: s)
    case Nil
    show ?case by simp
  next
    case (Cons item more)
    obtain u s1 where draw: "rs_random rs s = (u, s1)" by (cases "rs_random rs s")
    with assms [of s] have "\<not> nr < u" by simp
    with draw Cons show ?case by simp
  qed
  obtain e1 d1 st1 where row: "inject_items rs nr t its d st = (e1, d1, st1)"
    by (cases "inject_items rs nr t its d st")
  with items [of st] have "e1 = None" "d1 = d" by simp_all
  with Cons.prems row have "inject_rows rs nr rest its d st1 = (e, d', st')" by simp
  then show ?case by (rule Cons.IH)
qed

subsection \<open>Full rows after an injection into an all-zero array\<close>

lemma full_rows_zeros: "its \<noteq> [] \<Longrightarrow> full_rows (zeros r c) its = {}"
  by (cases its) (auto simp: full_rows_def zeros_def)

lemma full_rows_frame:
  assumes "\<And>i j. i \<notin> R \<Longrightarrow> cell b i j = cell a i j" and "nrows b = nrows a"
  shows "full_rows b its \<subseteq> full_rows a its \<union> R"
  using assms by (auto simp: full_rows_def)

lemma inject_pattern_rows:
  assumes "its \<noteq> []" and "\<forall>item\<in>set its. 0 \<le> item \<and> item < int (num_items self)"
    and "0 < support" and "support \<le> 1" and "0 \<le> noise" and "noise < 1"
    and "num_injections self support noise \<noteq> 0"
    and "num_transactions self \<le> 2 ^ 53"
  shows "inject_pattern self rs d its support noise st =
           inject_rows rs noise
             (fst (rs_choice rs (num_transactions self)
                     (nat (num_injections self support noise)) st))
             its d
             (snd (rs_choice rs (num_transactions self)
                     (nat (num_injections self support noise)) st))"
proof -
  have b: "0 \<le> num_injections self support noise \<and>
           num_injections self support noise \<le> int (num_transactions self)"
    using assms by (intro num_injections_bounds)
  then have "num_transactions self \<noteq> 0" using assms(7) by auto
  then have "np_choice rs (num_transactions self) (num_injections self support noise) st =
             (Inr (fst (rs_choice rs (num_transactions self)
                     (nat (num_injections self support noise)) st)),
              snd (rs_choice rs (num_transactions self)
                     (nat (num_injections self support noise)) st))"
    using b by (simp add: np_choice_def split: prod.splits)
  then show ?thesis using assms not_float_overflows [OF assms(8)]
    by (auto simp: inject_pattern_def)
qed

text \<open>
  The injection into a fresh array of the injector's shape: no exception, the full rows
  are among the rows drawn, and they are all of them when every draw exceeds the noise.
\<close>

lemma inject_zeros:
  assumes ok: "np_random_ok rs"
    and valid: "its \<noteq> []" "\<forall>item\<in>set its. 0 \<le> item \<and> item < int (num_items self)"
      "0 < support" "support \<le> 1" "0 \<le> noise" "noise < 1"
    and n: "num_injections self support noise = int k" "k \<noteq> 0"
    and run: "inject_pattern self rs (zeros (num_transactions self) (num_items self))
                its support noise st = (e, d', st')"
    and small: "num_transactions self \<le> 2 ^ 53"
  shows "e = None" and "nrows d' = num_transactions self"
    and "card (full_rows d' its) \<le> k"
    and "(\<And>s. noise < fst (rs_random rs s)) \<Longrightarrow> card (full_rows d' its) = k"
proof -
  define d where "d = zeros (num_transactions self) (num_items self)"
  define ts where "ts = fst (rs_choice rs (num_transactions self) k st)"
  define st1 where "st1 = snd (rs_choice rs (num_transactions self) k st)"
  have shape: "nrows d = num_transactions self" "ncols d = num_items self"
    by (simp_all add: d_def zeros_def)
  have "int k \<le> int (num_transactions self)"
    using num_injections_bounds [of support noise self] valid n small by simp
  then have kle: "k \<le> num_transactions self" by simp
  from ok kle have ts: "length ts = k" "distinct ts" "\<forall>t\<in>set ts. t < num_transactions self"
    unfolding np_random_ok_def ts_def by blast+
  have rows: "inject_rows rs noise ts its d st1 = (e, d', st')"
    using inject_pattern_rows [of its self support noise rs d st] valid n run small
    by (simp add: d_def ts_def st1_def)
  have v: "\<forall>item\<in>set its. 0 \<le> item \<and> item < int (ncols d)"
    and r: "\<forall>t\<in>set ts. t < nrows d"
    using valid ts by (simp_all add: shape)
  from inject_rows_valid [OF v r rows]
  have none: "e = None" and frame: "\<And>i j. i \<notin> set ts \<Longrightarrow> cell d' i j = cell d i j"
    by auto
  from inject_rows_only_sets [OF rows] have rows': "nrows d' = nrows d"
    by (simp add: only_sets_def)
  have sub: "full_rows d' its \<subseteq> set ts"
    using full_rows_frame [of "set ts" d' d its, OF frame rows'] full_rows_zeros [OF valid(1)]
    by (simp add: d_def)
  have cardts: "card (set ts) = k" using ts by (simp add: distinct_card)
  show "e = None" by (rule none)
  show "nrows d' = num_transactions self" by (simp add: rows' shape)
  show "card (full_rows d' its) \<le> k"
    using card_mono [OF _ sub] cardts by simp
  show "card (full_rows d' its) = k" if all: "\<And>s. noise < fst (rs_random rs s)"
  proof -
    have "\<forall>t\<in>set ts. \<forall>item\<in>set its. cell d' t (nat item) = 1"
      using inject_rows_kept [of "\<lambda>s. True" noise rs st1 its d ts e d' st'] all v r rows
      by simp
    then have "set ts \<subseteq> full_rows d' its"
      using r by (auto simp: full_rows_def rows')
    with sub have "full_rows d' its = set ts" by blast
    with cardts show ?thesis by simp
  qed
qed

subsection \<open>The cells an injection writes\<close>

lemma random_state_add:
  "random_state rs (random_state rs st a) b = random_state rs st (a + b)"
  by (induction a arbitrary: st) simp_all

lemma random_draw_add:
  "random_draw rs (random_state rs st a) m = random_draw rs st (a + m)"
  by (simp add: random_draw_def random_state_add)

lemma random_draw_0: "random_draw rs st 0 = fst (rs_random rs st)"
  by (simp add: random_draw_def)

lemma random_draw_Suc: "random_draw rs (snd (rs_random rs st)) m = random_draw rs st (Suc m)"
  by (simp add: random_draw_def)

lemma ex_less_Suc_split: "(\<exists>m<Suc n. P m) \<longleftrightarrow> P 0 \<or> (\<exists>m<n. P (Suc m))"
  by (auto simp: less_Suc_eq_0_disj)

lemma inject_items_cells:
  assumes "\<forall>item\<in>set its. 0 \<le> item \<and> item < int (ncols d)" and "t < nrows d"
  shows "inject_items rs nr t its d st =
           (None,
            d\<lparr>cell := \<lambda>i j. if i = t \<and> (\<exists>m<length its. j = nat (its ! m) \<and>
                                             nr < random_draw rs st m)
                              then 1 else cell d i j\<rparr>,
            random_state rs st (length its))"
  using assms
proof (induction its arbitrary: d st)
  case Nil
  then show ?case by simp
next
  case (Cons item rest)
  obtain u st1 where draw: "rs_random rs st = (u, st1)"
    by (cases "rs_random rs st")
  then have u: "u = random_draw rs st 0" and st1: "st1 = snd (rs_random rs st)"
    by (simp_all add: random_draw_0)
  show ?case
  proof (cases "u > nr")
    case False
    from Cons.prems have v: "\<forall>item\<in>set rest. 0 \<le> item \<and> item < int (ncols d)" by simp
    have "inject_items rs nr t (item # rest) d st = inject_items rs nr t rest d st1"
      using draw False by simp
    also note Cons.IH [OF v Cons.prems(2), of st1]
    also have "(\<lambda>i j. if i = t \<and> (\<exists>m<length rest. j = nat (rest ! m) \<and>
                                        nr < random_draw rs st1 m)
                        then 1 else cell d i j) =
               (\<lambda>i j. if i = t \<and> (\<exists>m<length (item # rest). j = nat ((item # rest) ! m) \<and>
                                        nr < random_draw rs st m)
                        then 1 else cell d i j)"
      using False u by (simp add: ex_less_Suc_split st1 random_draw_Suc)
    finally show ?thesis by (simp add: st1)
  next
    case True
    define d1 where "d1 = d\<lparr>cell := (cell d)(t := (cell d t)(nat item := 1))\<rparr>"
    have set1: "setitem d (int t) item 1 = Inr d1"
      using Cons.prems by (simp add: setitem_valid d1_def)
    have v1: "\<forall>item\<in>set rest. 0 \<le> item \<and> item < int (ncols d1)" and r1: "t < nrows d1"
      using Cons.prems by (simp_all add: d1_def)
    have "inject_items rs nr t (item # rest) d st = inject_items rs nr t rest d1 st1"
      using draw True set1 by simp
    also note Cons.IH [OF v1 r1, of st1]
    also have "d1\<lparr>cell := \<lambda>i j. if i = t \<and> (\<exists>m<length rest. j = nat (rest ! m) \<and>
                                        nr < random_draw rs st1 m)
                        then 1 else cell d1 i j\<rparr> =
               d\<lparr>cell := \<lambda>i j. if i = t \<and> (\<exists>m<length (item # rest).
                                        j = nat ((item # rest) ! m) \<and> nr < random_draw rs st m)
                        then 1 else cell d i j\<rparr>"
    proof -
      have "(\<lambda>i j. if i = t \<and> (\<exists>m<length rest. j = nat (rest ! m) \<and>
                                        nr < random_draw rs st1 m)
                        then 1 else cell d1 i j) =
            (\<lambda>i j. if i = t \<and> (\<exists>m<length (item # rest).
                                        j = nat ((item # rest) ! m) \<and> nr < random_draw rs st m)
                        then 1 else cell d i j)"
        using True u
        by (intro ext) (auto simp: d1_def ex_less_Suc_split st1 random_draw_Suc)
      then show ?thesis by (simp add: d1_def)
    qed
    finally show ?thesis by (simp add: st1)
  qed
qed

lemma inject_rows_cells:
  assumes "\<forall>item\<in>set its. 0 \<le> item \<and> item < int (ncols d)" and "\<forall>t\<in>set ts. t < nrows d"
  shows "inject_rows rs nr ts its d st =
           (None,
            d\<lparr>cell := \<lambda>i j. if \<exists>k<length ts. \<exists>m<length its.
                                   i = ts ! k \<and> j = nat (its ! m) \<and>
                                   nr < random_draw rs st (k * length its + m)
                              then 1 else cell d i j\<rparr>,
            random_state rs st (length ts * length its))"
  using assms
proof (induction ts arbitrary: d st)
  case Nil
  then show ?case by simp
next
  case (Cons t rest)
  define d1 where
    "d1 = d\<lparr>cell := \<lambda>i j. if i = t \<and> (\<exists>m<length its. j = nat (its ! m) \<and>
                                             nr < random_draw rs st m)
                           then 1 else cell d i j\<rparr>"
  define st1 where "st1 = random_state rs st (length its)"
  from Cons.prems have t: "t < nrows d" by simp
  have row: "inject_items rs nr t its d st = (None, d1, st1)"
    unfolding d1_def st1_def by (rule inject_items_cells [OF Cons.prems(1) t])
  have v1: "\<forall>item\<in>set its. 0 \<le> item \<and> item < int (ncols d1)"
    and r1: "\<forall>t\<in>set rest. t < nrows d1"
    using Cons.prems by (simp_all add: d1_def)
  have "inject_rows rs nr (t # rest) its d st = inject_rows rs nr rest its d1 st1"
    using row by simp
  also note Cons.IH [OF v1 r1, of st1]
  also have "random_state rs st1 (length rest * length its) =
             random_state rs st (length (t # rest) * length its)"
    by (simp add: st1_def random_state_add)
  also have "d1\<lparr>cell := \<lambda>i j. if \<exists>k<length rest. \<exists>m<length its.
                                   i = rest ! k \<and> j = nat (its ! m) \<and>
                                   nr < random_draw rs st1 (k * length its + m)
                              then 1 else cell d1 i j\<rparr> =
             d\<lparr>cell := \<lambda>i j. if \<exists>k<length (t # rest). \<exists>m<length its.
                                   i = (t # rest) ! k \<and> j = nat (its ! m) \<and>
                                   nr < random_draw rs st (k * length its + m)
                              then 1 else cell d i j\<rparr>"
  proof -
    have "(\<lambda>i j. if \<exists>k<length rest. \<exists>m<length its.
                                   i = rest ! k \<and> j = nat (its ! m) \<and>
                                   nr < random_draw rs st1 (k * length its + m)
                              then 1 else cell d1 i j) =
          (\<lambda>i j. if \<exists>k<length (t # rest). \<exists>m<length its.
                                   i = (t # rest) ! k \<and> j = nat (its ! m) \<and>
                                   nr < random_draw rs st (k * length its + m)
                              then 1 else cell d i j)"
      by (intro ext) (auto simp: d1_def ex_less_Suc_split st1_def random_draw_add add.assoc)
    then show ?thesis by (simp add: d1_def)
  qed
  finally show ?case .
qed

lemma full_rows_injected:
  assumes ts: "distinct ts" "\<forall>t\<in>set ts. t < r"
    and its: "its \<noteq> []" "distinct its" "\<forall>item\<in>set its. 0 \<le> item"
    and d': "nrows d' = r"
      "\<And>i j. cell d' i j =
         (if \<exists>k<length ts. \<exists>m<length its. i = ts ! k \<and> j = nat (its ! m) \<and>
               nr < random_draw rs st (k * length its + m)
          then 1 else 0)"
  shows "full_rows d' its = (\<lambda>k. ts ! k) ` kept_rows rs st nr (length ts) (length its)"
proof (intro equalityI subsetI)
  fix i assume "i \<in> full_rows d' its"
  then have full: "\<And>item. item \<in> set its \<Longrightarrow> cell d' i (nat item) = 1"
    by (simp add: full_rows_def)
  have one: "\<exists>k<length ts. \<exists>m'<length its. i = ts ! k \<and> nat (its ! m) = nat (its ! m') \<and>
               nr < random_draw rs st (k * length its + m')" if "m < length its" for m
  proof -
    from that have c: "cell d' i (nat (its ! m)) = 1" by (intro full) simp
    show ?thesis
    proof (rule ccontr)
      assume "\<not> ?thesis"
      then have "cell d' i (nat (its ! m)) = 0" unfolding d'(2) by (rule if_not_P)
      with c show False by simp
    qed
  qed
  from its(1) have "0 < length its" by simp
  from one [OF this] obtain k0 where k0: "k0 < length ts" "i = ts ! k0" by blast
  have "nr < random_draw rs st (k0 * length its + m)" if m: "m < length its" for m
  proof -
    from one [OF m] obtain k m' where
      k: "k < length ts" "i = ts ! k" and m': "m' < length its" "nat (its ! m) = nat (its ! m')"
      and kept: "nr < random_draw rs st (k * length its + m')"
      by blast
    from k k0 ts(1) have "k = k0" by (simp add: nth_eq_iff_index_eq)
    moreover have "its ! m = its ! m'"
      using m m' its(3) by (metis nat_eq_iff2 nth_mem)
    then have "m = m'" using m m' its(2) by (simp add: nth_eq_iff_index_eq)
    ultimately show ?thesis using kept by simp
  qed
  with k0 show "i \<in> (\<lambda>k. ts ! k) ` kept_rows rs st nr (length ts) (length its)"
    by (auto simp: kept_rows_def)
next
  fix i assume "i \<in> (\<lambda>k. ts ! k) ` kept_rows rs st nr (length ts) (length its)"
  then obtain k where k: "k < length ts" "i = ts ! k"
    and kept: "\<And>m. m < length its \<Longrightarrow> nr < random_draw rs st (k * length its + m)"
    by (auto simp: kept_rows_def)
  have "i < nrows d'" using k ts(2) d'(1) by simp
  moreover have "cell d' i (nat item) = 1" if "item \<in> set its" for item
  proof -
    from that obtain m where "m < length its" "item = its ! m" by (auto simp: in_set_conv_nth)
    with k kept show ?thesis unfolding d'(2) by auto
  qed
  ultimately show "i \<in> full_rows d' its" by (simp add: full_rows_def)
qed

lemma card_kept_rows: "card (kept_rows rs st nr n m) \<le> n"
proof -
  have "kept_rows rs st nr n m \<subseteq> {..<n}" by (auto simp: kept_rows_def)
  then have "card (kept_rows rs st nr n m) \<le> card {..<n}" by (intro card_mono) simp_all
  then show ?thesis by simp
qed

lemma card_full_rows_injected:
  assumes "distinct ts" "\<forall>t\<in>set ts. t < r"
    and "its \<noteq> []" "distinct its" "\<forall>item\<in>set its. 0 \<le> item"
    and "nrows d' = r"
      "\<And>i j. cell d' i j =
         (if \<exists>k<length ts. \<exists>m<length its. i = ts ! k \<and> j = nat (its ! m) \<and>
               nr < random_draw rs st (k * length its + m)
          then 1 else 0)"
  shows "card (full_rows d' its) = card (kept_rows rs st nr (length ts) (length its))"
proof -
  have "inj_on (\<lambda>k. ts ! k) {..<length ts}"
    using assms(1) by (auto simp: inj_on_def nth_eq_iff_index_eq)
  moreover have "kept_rows rs st nr (length ts) (length its) \<subseteq> {..<length ts}"
    by (auto simp: kept_rows_def)
  ultimately have "inj_on (\<lambda>k. ts ! k) (kept_rows rs st nr (length ts) (length its))"
    by (rule inj_on_subset)
  then show ?thesis
    unfolding full_rows_injected [OF assms] by (rule card_image)
qed

subsection \<open>The two injections of the test suite\<close>

lemma zero_draw_stream_sel:
  "rs_choice zero_draw_stream a k st = ([0..<k], Suc st)"
  "rs_random zero_draw_stream st = (if st = Suc 0 then 0 else 1 / 2, Suc st)"
  by (simp_all add: zero_draw_stream_def demo_stream_def)

lemma zero_draw_stream_ok: "np_random_ok zero_draw_stream"
  unfolding np_random_ok_def zero_draw_stream_def demo_stream_def
  by (auto simp: count_pos_indices dest: in_set_takeD)

lemma verify_after_inject:
  assumes "inject_pattern \<lparr>num_transactions = 1000, num_items = 50\<rparr> rs (zeros 1000 50)
             [5, 10, 15] support noise st = (e, d', st')"
  shows "verify_pattern d' [5, 10, 15] = Inr (Fl (real (card (full_rows d' [5, 10, 15])) / 1000))"
proof -
  from inject_pattern_only_sets [OF assms]
  have "nrows d' = 1000" "ncols d' = 50" by (simp_all add: only_sets_def zeros_def)
  then show ?thesis
    by (simp add: verify_pattern_eq np_true_divide_def)
qed

text \<open>
  The noisy injection of the test suite, with the floats 0.1 and 0.2: 116 rows are
  drawn, 348 uniform draws follow, and a cell holds 1 exactly when its row is the one at
  some position \<open>k\<close> of the sample, its column is the pattern item number \<open>m\<close>, and
  draw number \<open>3 k + m\<close> exceeds 0.2.
\<close>

lemma inject_noisy_cells:
  assumes ok: "np_random_ok rs"
    and ch: "rs_choice rs 1000 116 st = (rows, st1)"
    and run: "inject_pattern \<lparr>num_transactions = 1000, num_items = 50\<rparr> rs (zeros 1000 50)
                [5, 10, 15] (fl64 (1 / 10)) (fl64 (1 / 5)) st = (e, d', st')"
  shows "e = None" and "st' = random_state rs st1 348"
    and "nrows d' = 1000" and "ncols d' = 50"
    and "cell d' i j =
           (if \<exists>k<116. \<exists>m<3. i = rows ! k \<and> j = nat ([5, 10, 15] ! m) \<and>
                 fl64 (1 / 5) < random_draw rs st1 (k * 3 + m)
            then 1 else 0)"
    and "verify_pattern d' [5, 10, 15] =
           Inr (Fl (real (card (kept_rows rs st1 (fl64 (1 / 5)) 116 3)) / 1000))"
proof -
  have rows: "length rows = 116" "distinct rows" "\<forall>t\<in>set rows. t < 1000"
  proof -
    have "(116::nat) \<le> 1000" by simp
    with ok have "length (fst (rs_choice rs 1000 116 st)) = 116 \<and>
        distinct (fst (rs_choice rs 1000 116 st)) \<and>
        (\<forall>x\<in>set (fst (rs_choice rs 1000 116 st)). x < 1000)"
      unfolding np_random_ok_def by blast
    then show "length rows = 116" "distinct rows" "\<forall>t\<in>set rows. t < 1000"
      by (simp_all add: ch)
  qed
  have "inject_pattern \<lparr>num_transactions = 1000, num_items = 50\<rparr> rs (zeros 1000 50)
          [5, 10, 15] (fl64 (1 / 10)) (fl64 (1 / 5)) st =
        inject_rows rs (fl64 (1 / 5)) rows [5, 10, 15] (zeros 1000 50) st1"
    using inject_pattern_rows [of "[5, 10, 15]" "\<lparr>num_transactions = 1000, num_items = 50\<rparr>"
            "fl64 (1 / 10)" "fl64 (1 / 5)" rs "zeros 1000 50" st]
      float_tenth_range float_fifth_range
    by (simp add: num_injections_noisy ch)
  also have "\<dots> =
      (None,
       (zeros 1000 50)\<lparr>cell := \<lambda>i j. if \<exists>k<length rows. \<exists>m<length [5, 10, 15 :: int].
                                   i = rows ! k \<and> j = nat ([5, 10, 15] ! m) \<and>
                                   fl64 (1 / 5) < random_draw rs st1 (k * length [5, 10, 15 :: int] + m)
                              then 1 else cell (zeros 1000 50) i j\<rparr>,
       random_state rs st1 (length rows * length [5, 10, 15 :: int]))"
    using rows(3) by (intro inject_rows_cells) (simp_all add: zeros_def)
  finally have full: "(e, d', st') =
      (None,
       (zeros 1000 50)\<lparr>cell := \<lambda>i j. if \<exists>k<length rows. \<exists>m<length [5, 10, 15 :: int].
                                   i = rows ! k \<and> j = nat ([5, 10, 15] ! m) \<and>
                                   fl64 (1 / 5) < random_draw rs st1 (k * length [5, 10, 15 :: int] + m)
                              then 1 else cell (zeros 1000 50) i j\<rparr>,
       random_state rs st1 (length rows * length [5, 10, 15 :: int]))"
    unfolding run .
  define F where
    "F = (\<lambda>i j. if \<exists>k<116. \<exists>m<3. i = rows ! k \<and> j = nat ([5, 10, 15] ! m) \<and>
                       fl64 (1 / 5) < random_draw rs st1 (k * 3 + m)
                 then 1 else (0::int))"
  have l3: "length [5, 10, 15 :: int] = 3" by simp
  have z: "cell (zeros 1000 50) i j = 0" for i j by (simp add: zeros_def)
  have m348: "(116::nat) * 3 = 348" by simp
  have res: "(e, d', st') = (None, (zeros 1000 50)\<lparr>cell := F\<rparr>, random_state rs st1 348)"
    using full unfolding rows(1) l3 z m348 F_def .
  then show "e = None" and "st' = random_state rs st1 348" by simp_all
  from res have d': "d' = (zeros 1000 50)\<lparr>cell := F\<rparr>" by simp
  show shape: "nrows d' = 1000" "ncols d' = 50" by (simp_all add: d' zeros_def)
  have "cell d' = F" by (simp add: d')
  then show cells: "cell d' i j =
           (if \<exists>k<116. \<exists>m<3. i = rows ! k \<and> j = nat ([5, 10, 15] ! m) \<and>
                 fl64 (1 / 5) < random_draw rs st1 (k * 3 + m)
            then 1 else 0)" for i j
    unfolding F_def by (rule fun_cong [THEN fun_cong])
  have "card (full_rows d' [5, 10, 15]) =
          card (kept_rows rs st1 (fl64 (1 / 5)) (length rows) (length [5, 10, 15 :: int]))"
  proof (rule card_full_rows_injected [OF rows(2,3) _ _ _ shape(1)])
    show "cell d' i j =
           (if \<exists>k<length rows. \<exists>m<length [5, 10, 15 :: int]. i = rows ! k \<and>
                 j = nat ([5, 10, 15] ! m) \<and>
                 fl64 (1 / 5) < random_draw rs st1 (k * length [5, 10, 15 :: int] + m)
            then 1 else 0)" for i j
      unfolding rows(1) l3 by (rule cells)
  qed simp_all
  then show "verify_pattern d' [5, 10, 15] =
           Inr (Fl (real (card (kept_rows rs st1 (fl64 (1 / 5)) 116 3)) / 1000))"
    using verify_after_inject [OF run] unfolding rows(1) l3 by simp
qed

text \<open>
  C5. On the all-zero 1000 by 50 array, injecting items 5, 10, 15 with target support 0.1
  and noise ratio 0.2 targets 116 rows and raises no exception. The array it leaves holds
  1 exactly in the cells whose row is at a position \<open>k\<close> of the sample, whose column is
  the pattern item number \<open>m\<close> and whose uniform draw (number \<open>3 k + m\<close>) exceeds the
  noise ratio. \<^verbatim>\<open>verify_pattern\<close> then returns the number of sampled rows that kept all
  three items, divided by 1000: a value of at most 0.116, which is below 0.1 exactly when
  fewer than 100 rows kept all three items.
\<close>

theorem inject_noisy_support:
  assumes "np_random_ok rs"
    and "rs_choice rs 1000 116 st = (rows, st1)"
    and "inject_pattern \<lparr>num_transactions = 1000, num_items = 50\<rparr> rs (zeros 1000 50)
           [5, 10, 15] (fl64 (1 / 10)) (fl64 (1 / 5)) st = (e, d', st')"
  shows "num_injections \<lparr>num_transactions = 1000, num_items = 50\<rparr> (fl64 (1 / 10)) (fl64 (1 / 5)) = 116 \<and>
         e = None \<and> st' = random_state rs st1 348 \<and> nrows d' = 1000 \<and> ncols d' = 50 \<and>
         (\<forall>i j. cell d' i j =
            (if \<exists>k<116. \<exists>m<3. i = rows ! k \<and> j = nat ([5, 10, 15] ! m) \<and>
                  fl64 (1 / 5) < random_draw rs st1 (k * 3 + m)
             then 1 else 0)) \<and>
         verify_pattern d' [5, 10, 15] =
           Inr (Fl (real (card (kept_rows rs st1 (fl64 (1 / 5)) 116 3)) / 1000)) \<and>
         card (kept_rows rs st1 (fl64 (1 / 5)) 116 3) \<le> 116 \<and>
         (real (card (kept_rows rs st1 (fl64 (1 / 5)) 116 3)) / 1000 < 1 / 10 \<longleftrightarrow>
            card (kept_rows rs st1 (fl64 (1 / 5)) 116 3) < 100)"
proof (intro conjI allI)
  show "num_injections \<lparr>num_transactions = 1000, num_items = 50\<rparr> (fl64 (1 / 10)) (fl64 (1 / 5)) = 116"
    using num_injections_noisy by simp
  show "e = None" by (rule inject_noisy_cells(1) [OF assms])
  show "st' = random_state rs st1 348" by (rule inject_noisy_cells(2) [OF assms])
  show "nrows d' = 1000" by (rule inject_noisy_cells(3) [OF assms])
  show "ncols d' = 50" by (rule inject_noisy_cells(4) [OF assms])
  show "cell d' i j =
            (if \<exists>k<116. \<exists>m<3. i = rows ! k \<and> j = nat ([5, 10, 15] ! m) \<and>
                  fl64 (1 / 5) < random_draw rs st1 (k * 3 + m)
             then 1 else 0)" for i j
    by (rule inject_noisy_cells(5) [OF assms])
  show "verify_pattern d' [5, 10, 15] =
           Inr (Fl (real (card (kept_rows rs st1 (fl64 (1 / 5)) 116 3)) / 1000))"
    by (rule inject_noisy_cells(6) [OF assms])
  show "card (kept_rows rs st1 (fl64 (1 / 5)) 116 3) \<le> 116" by (rule card_kept_rows)
  show "real (card (kept_rows rs st1 (fl64 (1 / 5)) 116 3)) / 1000 < 1 / 10 \<longleftrightarrow>
            card (kept_rows rs st1 (fl64 (1 / 5)) 116 3) < 100"
    by auto
qed

lemma demo_random_draw: "random_draw demo_stream st k = 1 / 2"
  by (simp add: random_draw_def demo_stream_sel)

lemma demo_kept_rows: "kept_rows demo_stream st (fl64 (1 / 5)) n m = {..<n}"
  unfolding kept_rows_def demo_random_draw float_fifth by auto

theorem inject_noisy_support_witness:
  "verify_pattern
     (fst (snd (inject_pattern \<lparr>num_transactions = 1000, num_items = 50\<rparr> demo_stream
                  (zeros 1000 50) [5, 10, 15] (fl64 (1 / 10)) (fl64 (1 / 5)) 0)))
     [5, 10, 15] = Inr (Fl (116 / 1000)) \<and>
   fst (inject_pattern \<lparr>num_transactions = 1000, num_items = 50\<rparr> demo_stream (zeros 1000 50)
          [5, 10, 15] (fl64 (1 / 10)) (fl64 (1 / 5)) 0) = None"
proof -
  obtain e d' st' where
    r: "inject_pattern \<lparr>num_transactions = 1000, num_items = 50\<rparr> demo_stream (zeros 1000 50)
          [5, 10, 15] (fl64 (1 / 10)) (fl64 (1 / 5)) 0 = (e, d', st')"
    by (metis prod_cases3)
  have ch: "rs_choice demo_stream 1000 116 0 = ([0..<116], Suc 0)"
    by (simp add: demo_stream_sel)
  from inject_noisy_support [OF demo_stream_ok ch r]
  have "e = None" and "verify_pattern d' [5, 10, 15] =
           Inr (Fl (real (card (kept_rows demo_stream (Suc 0) (fl64 (1 / 5)) 116 3)) / 1000))"
    by simp_all
  then show ?thesis by (simp add: r demo_kept_rows)
qed

theorem inject_noisy_overshoot:
  "np_random_ok demo_stream \<and>
   verify_pattern
     (fst (snd (inject_pattern \<lparr>num_transactions = 1000, num_items = 50\<rparr> demo_stream
                  (zeros 1000 50) [5, 10, 15] (fl64 (1 / 10)) (fl64 (1 / 5)) 0)))
     [5, 10, 15] = Inr (Fl (116 / 1000)) \<and>
   \<not> (116 / 1000 < (1 / 10 :: real))"
proof -
  obtain e d' st' where
    r: "inject_pattern \<lparr>num_transactions = 1000, num_items = 50\<rparr> demo_stream (zeros 1000 50)
          [5, 10, 15] (fl64 (1 / 10)) (fl64 (1 / 5)) 0 = (e, d', st')"
    by (metis prod_cases3)
  have ch: "rs_choice demo_stream 1000 116 0 = ([0..<116], Suc 0)"
    by (simp add: demo_stream_sel)
  from inject_noisy_cells(6) [OF demo_stream_ok ch r]
  have "verify_pattern d' [5, 10, 15] = Inr (Fl (116 / 1000))"
    by (simp add: demo_kept_rows)
  with r demo_stream_ok show ?thesis by simp
qed

text \<open>
  With no noise, and no uniform draw equal to 0, the three items are set in exactly the
  100 rows drawn and \<^verbatim>\<open>verify_pattern\<close> returns 0.1. The support is any float for which
  100 rows are targeted: the float 0.1 is one (\<open>num_injections_noiseless_float\<close>), and
  so is the real number 1/10 (\<open>num_injections_noiseless\<close>).
\<close>

lemma inject_noiseless_exact:
  assumes "np_random_ok rs" and "\<And>s. 0 < fst (rs_random rs s)"
    and "0 < support" and "support \<le> 1"
    and "num_injections \<lparr>num_transactions = 1000, num_items = 50\<rparr> support 0 = int 100"
    and "inject_pattern \<lparr>num_transactions = 1000, num_items = 50\<rparr> rs (zeros 1000 50)
           [5, 10, 15] support 0 st = (e, d', st')"
  shows "e = None \<and> verify_pattern d' [5, 10, 15] = Inr (Fl (1 / 10))"
proof -
  have run: "inject_pattern \<lparr>num_transactions = 1000, num_items = 50\<rparr> rs
               (zeros (num_transactions \<lparr>num_transactions = 1000, num_items = 50\<rparr>)
                      (num_items \<lparr>num_transactions = 1000, num_items = 50\<rparr>))
               [5, 10, 15] support 0 st = (e, d', st')"
    using assms(6) by simp
  have "e = None" and "card (full_rows d' [5, 10, 15]) = 100"
    using inject_zeros(1,4) [OF assms(1) _ _ assms(3,4) _ _ assms(5) _ run] assms(2)
    by simp_all
  then show ?thesis
    using verify_after_inject [OF assms(6)] by simp
qed

lemma upt_0_100: "[0..<100] = 0 # [Suc 0..<100]"
  by (simp add: upt_conv_Cons)

lemma inject_first_row_zero_draw:
  "inject_items zero_draw_stream 0 0 [5, 10, 15] (zeros 1000 50) (Suc 0) =
     (None,
      \<lparr>nrows = 1000, ncols = 50,
       cell = (\<lambda>i j. 0)(0 := ((\<lambda>j. 0)(10 := 1, 15 := 1)))\<rparr>, Suc (Suc (Suc (Suc 0))))"
  by (simp add: zero_draw_stream_sel setitem_def np_index_def zeros_def)

text \<open>
  On \<open>zero_draw_stream\<close> the first uniform draw is 0.0: the test \<open>0.0 > 0.0\<close> fails,
  item 5 of the first row drawn is skipped, and 99 of the 100 rows drawn hold the
  pattern. The support is any float for which 100 rows are targeted.
\<close>

lemma inject_zero_draw:
  assumes "0 < support" and "support \<le> 1"
    and "num_injections \<lparr>num_transactions = 1000, num_items = 50\<rparr> support 0 = int 100"
  shows "verify_pattern
     (fst (snd (inject_pattern \<lparr>num_transactions = 1000, num_items = 50\<rparr> zero_draw_stream
                  (zeros 1000 50) [5, 10, 15] support 0 0)))
     [5, 10, 15] = Inr (Fl (99 / 1000))"
proof -
  define d1 where "d1 = \<lparr>nrows = 1000, ncols = 50,
       cell = (\<lambda>i j. 0)(0 := ((\<lambda>j. 0::int)(10 := 1, 15 := 1)))\<rparr>"
  obtain e d' st' where
    r: "inject_pattern \<lparr>num_transactions = 1000, num_items = 50\<rparr> zero_draw_stream
          (zeros 1000 50) [5, 10, 15] support 0 0 = (e, d', st')"
    by (metis prod_cases3)
  have start: "inject_pattern \<lparr>num_transactions = 1000, num_items = 50\<rparr> zero_draw_stream
          (zeros 1000 50) [5, 10, 15] support 0 0 =
        inject_rows zero_draw_stream 0 (0 # [Suc 0..<100]) [5, 10, 15] (zeros 1000 50) (Suc 0)"
    using inject_pattern_rows [of "[5, 10, 15]" "\<lparr>num_transactions = 1000, num_items = 50\<rparr>"
            support 0 zero_draw_stream "zeros 1000 50" 0] assms
    by (simp add: zero_draw_stream_sel upt_0_100)
  have "inject_rows zero_draw_stream 0 (0 # [Suc 0..<100]) [5, 10, 15] (zeros 1000 50) (Suc 0) =
        inject_rows zero_draw_stream 0 [Suc 0..<100] [5, 10, 15] d1 (Suc (Suc (Suc (Suc 0))))"
    unfolding inject_rows.simps inject_first_row_zero_draw d1_def by simp
  with r start
  have rest: "inject_rows zero_draw_stream 0 [Suc 0..<100] [5, 10, 15] d1
                (Suc (Suc (Suc (Suc 0)))) = (e, d', st')"
    by simp
  have v: "\<forall>item\<in>set [5, 10, 15]. 0 \<le> item \<and> item < int (ncols d1)"
    and rr: "\<forall>t\<in>set [Suc 0..<100]. t < nrows d1"
    by (simp_all add: d1_def)
  from inject_rows_valid [OF v rr rest]
  have frame: "\<And>i j. i \<notin> set [Suc 0..<100] \<Longrightarrow> cell d' i j = cell d1 i j" by auto
  have inv: "\<And>s. 2 \<le> s \<Longrightarrow>
      0 < fst (rs_random zero_draw_stream s) \<and> 2 \<le> snd (rs_random zero_draw_stream s)"
    by (simp add: zero_draw_stream_sel)
  have p0: "2 \<le> Suc (Suc (Suc (Suc 0)))" by simp
  from inject_rows_kept [of "\<lambda>s. 2 \<le> s" 0 zero_draw_stream, OF inv p0 v rr rest]
  have kept: "\<forall>t\<in>set [Suc 0..<100]. \<forall>item\<in>set [5, 10, 15]. cell d' t (nat item) = 1"
    by simp
  from inject_rows_only_sets [OF rest] have rows': "nrows d' = 1000"
    by (simp add: only_sets_def d1_def)
  have no5: "cell d1 i 5 = 0" for i by (simp add: d1_def)
  have "full_rows d' [5, 10, 15] = {Suc 0..<100}"
  proof
    show "full_rows d' [5, 10, 15] \<subseteq> {Suc 0..<100}"
    proof
      fix i assume i: "i \<in> full_rows d' [5, 10, 15]"
      show "i \<in> {Suc 0..<100}"
      proof (rule ccontr)
        assume "i \<notin> {Suc 0..<100}"
        then have "cell d' i 5 = cell d1 i 5" by (intro frame) simp
        with no5 [of i] i show False by (simp add: full_rows_def)
      qed
    qed
    show "{Suc 0..<100} \<subseteq> full_rows d' [5, 10, 15]"
      using kept by (auto simp: full_rows_def rows')
  qed
  then have "card (full_rows d' [5, 10, 15]) = 99" by simp
  then have "verify_pattern d' [5, 10, 15] = Inr (Fl (99 / 1000))"
    using verify_after_inject [OF r] by simp
  with r show ?thesis by simp
qed


text \<open>
  C4. The noiseless injection of items 5, 10, 15 with target support 0.1 into the all-zero
  1000 by 50 array, run on \<open>zero_draw_stream\<close>, whose first uniform draw is 0.0: the
  test \<open>0.0 > 0.0\<close> fails, item 5 of the first row drawn is skipped, 99 rows hold the
  pattern and \<^verbatim>\<open>verify_pattern\<close> returns 0.099, not 0.1.
\<close>

theorem inject_noiseless_zero_draw:
  "verify_pattern
     (fst (snd (inject_pattern \<lparr>num_transactions = 1000, num_items = 50\<rparr> zero_draw_stream
                  (zeros 1000 50) [5, 10, 15] (1 / 10) 0 0)))
     [5, 10, 15] = Inr (Fl (99 / 1000))"
  by (rule inject_zero_draw [OF _ _ num_injections_noiseless]) simp_all

text \<open>The same on the float nearest to 0.1, which is what the literal denotes.\<close>

lemma inject_noiseless_zero_draw_float:
  "verify_pattern
     (fst (snd (inject_pattern \<lparr>num_transactions = 1000, num_items = 50\<rparr> zero_draw_stream
                  (zeros 1000 50) [5, 10, 15] (fl64 (1 / 10)) 0 0)))
     [5, 10, 15] = Inr (Fl (99 / 1000))"
  by (rule inject_zero_draw [OF float_tenth_range num_injections_noiseless_float])

lemma replicate_2: "replicate 2 x = [x, x]"
  by (simp add: numeral_2_eq_2)

lemma demo_verify_before: "verify_pattern (zeros 2 3) [1] = Inr (Fl 0)"
  by (simp add: verify_pattern_def np_index_def np_true_divide_def zeros_def upt_0_2 replicate_2)

lemma demo_verify_after:
  "verify_pattern \<lparr>nrows = 2, ncols = 3, cell = (\<lambda>i j. 0)(0 := (\<lambda>j. 0)(Suc 0 := 1))\<rparr> [1] =
     Inr (Fl (1 / 2))"
  by (simp add: verify_pattern_def np_index_def np_true_divide_def upt_0_2 replicate_2)

theorem inject_never_clears_witness:
  "cell (zeros 2 3) 0 1 \<le>
     cell \<lparr>nrows = 2, ncols = 3, cell = (\<lambda>i j. 0)(0 := (\<lambda>j. 0)(Suc 0 := 1))\<rparr> 0 1 \<and>
   verify_pattern (zeros 2 3) [1] = Inr (Fl 0) \<and>
   verify_pattern \<lparr>nrows = 2, ncols = 3, cell = (\<lambda>i j. 0)(0 := (\<lambda>j. 0)(Suc 0 := 1))\<rparr> [1] =
     Inr (Fl (1 / 2)) \<and>
   (0 :: real) \<le> 1 / 2"
proof -
  have "\<forall>i<nrows (zeros 2 3). \<forall>j<ncols (zeros 2 3).
          cell (zeros 2 3) i j \<le>
          cell \<lparr>nrows = 2, ncols = 3, cell = (\<lambda>i j. 0)(0 := (\<lambda>j. 0)(Suc 0 := 1))\<rparr> i j"
    using inject_never_clears
      [THEN conjunct2, THEN conjunct2, THEN conjunct1, THEN mp,
       OF conjI [OF binary_zeros demo_inject_one]] .
  then have "cell (zeros 2 3) 0 1 \<le>
     cell \<lparr>nrows = 2, ncols = 3, cell = (\<lambda>i j. 0)(0 := (\<lambda>j. 0)(Suc 0 := 1))\<rparr> 0 1"
    by (simp add: zeros_def)
  with demo_verify_before demo_verify_after show ?thesis by simp
qed

section \<open>Base sampling with too few positive weights\<close>

lemma generate_rows_append:
  "generate_rows self rs p (xs @ ys) a st =
     (case generate_rows self rs p xs a st of
        (Inl e, st') \<Rightarrow> (Inl e, st')
      | (Inr a', st') \<Rightarrow> generate_rows self rs p ys a' st')"
  by (induction xs arbitrary: a st) (auto split: prod.splits sum.splits)

lemma np_choice_p_few_nonzero:
  "int (length (filter (\<lambda>x. 0 < fl_val x) p)) < k \<Longrightarrow>
   np_choice_p rs a k p st = (Inl ValueError, st)"
  by (simp add: np_choice_p_def)

text \<open>
  C1. When, at some row, the transaction length chosen exceeds the number of positive
  entries of the item-probability vector, the weighted draw is rejected by numpy
  (\<^verbatim>\<open>"Fewer non-zero entries in p than size"\<close>) and \<^verbatim>\<open>_generate_transactions\<close> ends with
  that \<^verbatim>\<open>ValueError\<close>: no array is returned.
\<close>

theorem sampling_raises_on_few_nonzero:
  assumes "[0..<num_transactions (injector self)] = before @ i # after"
    and "generate_rows self rs item_probs before
           (zeros (num_transactions (injector self)) (num_items (injector self))) st =
           (Inr a, st1)"
    and "transaction_length self rs st1 = (Inr trans_len, st2)"
    and "int (length (filter (\<lambda>x. 0 < fl_val x) item_probs)) < trans_len"
  shows "generate_transactions self rs item_probs st = (Inl ValueError, st2)"
  using assms
  by (simp add: generate_transactions_def generate_rows_append np_choice_p_few_nonzero)

lemma pathological_length:
  "transaction_length pathological_generator rs st = (Inr 2, st)"
  by (simp add: transaction_length_def pathological_generator_def py_int_def float_overflows_def
        fl64_numerals)

theorem sampling_raises_on_few_nonzero_witness:
  "generate_transactions pathological_generator demo_stream [Fl 1, Fl 0] 0 = (Inl ValueError, 0)"
proof -
  have rows: "[0..<num_transactions (injector pathological_generator)] = [] @ 0 # []"
    by (simp add: pathological_generator_def)
  have none: "generate_rows pathological_generator demo_stream [Fl 1, Fl 0] []
           (zeros (num_transactions (injector pathological_generator))
                  (num_items (injector pathological_generator))) 0 =
           (Inr (zeros (num_transactions (injector pathological_generator))
                  (num_items (injector pathological_generator))), 0)"
    by simp
  have few: "int (length (filter (\<lambda>x. 0 < fl_val x) [Fl 1, Fl 0])) < 2"
    by (simp add: fl_val_def)
  from sampling_raises_on_few_nonzero [OF rows none pathological_length few]
  show ?thesis .
qed

theorem sampling_not_graceful:
  "transaction_length pathological_generator demo_stream 7 = (Inr 2, 7) \<and>
   length (filter (\<lambda>x. 0 < fl_val x) [Fl 1, Fl 0]) = 1 \<and>
   fst (generate_transactions pathological_generator demo_stream [Fl 1, Fl 0] 7) = Inl ValueError"
  by (simp add: pathological_length fl_val_def generate_transactions_def np_choice_p_def
        pathological_generator_def [THEN arg_cong [where f = injector]])


end
